theory Spec2Isabelle
  imports Main
begin

section \<open>The browser flow of verify\_edit\_expense.py\<close>

text \<open>
  The repository is one Python script, \<^verbatim>\<open>jules-scratch/verification/verify_edit_expense.py\<close>.
  Its function \<^verbatim>\<open>run_verification\<close> drives a browser through the Playwright library:
  it enters the \<^verbatim>\<open>sync_playwright()\<close> scope, launches a headless Chromium, opens a
  page and then, inside \<^verbatim>\<open>try: ... finally: browser.close()\<close>, performs eleven
  calls on the page.

  The library, the browser and the dashboard behind the URL are not part of the
  repository. They are a parameter of the model, the \<open>driver\<close>: for each call of the
  script and each state of the outside world it says whether the call raises, and what
  the outside world is afterwards. Everything the script itself decides (which calls,
  in which order, with which arguments, what happens after a call raises) is a
  definition below, statement by statement.
\<close>

subsection \<open>Locators and calls\<close>

text \<open>
  \<^verbatim>\<open>page.get_by_role(role, name=...)\<close>, \<^verbatim>\<open>page.get_by_text(text)\<close> and the property
  \<^verbatim>\<open>.first\<close> build locator objects; building one does not touch the page.
\<close>

datatype locator =
  Get_by_role string string
| Get_by_text string
| First locator

text \<open>
  The calls the script makes on the library. The script holds one browser and one page,
  so the calls carry no handle. \<open>Sync_playwright_enter\<close> and \<open>Sync_playwright_exit\<close>
  are the two ends of the \<^verbatim>\<open>with sync_playwright() as p\<close> statement;
  \<open>Chromium_launch h\<close> is \<^verbatim>\<open>p.chromium.launch(headless=h)\<close>;
  \<open>Expect_to_be_visible l\<close> is \<^verbatim>\<open>expect(l).to_be_visible()\<close>.
\<close>

datatype call =
  Sync_playwright_enter
| Chromium_launch bool
| New_page
| Goto string
| Screenshot string
| Click locator
| Expect_to_be_visible locator
| Go_back
| Browser_close
| Sync_playwright_exit

subsection \<open>The outside world and the state of a run\<close>

text \<open>
  \<open>respond drv c w\<close> is the library's answer to call \<open>c\<close> in world \<open>w\<close>: \<open>None\<close>
  when the call returns, \<open>Some e\<close> when it raises \<open>e\<close>, together with the world after
  the call. \<open>render drv w\<close> is the image a screenshot taken in world \<open>w\<close> holds.
\<close>

record ('w, 'e, 'img) driver =
  respond :: "call \<Rightarrow> 'w \<Rightarrow> 'e option \<times> 'w"
  render :: "'w \<Rightarrow> 'img"

text \<open>
  The state of a run: the outside world, the files on disk (a path holds an image or
  nothing), and the calls made so far, oldest first.
\<close>

record ('w, 'img) state =
  world :: 'w
  files :: "string \<rightharpoonup> 'img"
  calls :: "call list"

definition start :: "'w \<Rightarrow> (string \<rightharpoonup> 'img) \<Rightarrow> ('w, 'img) state" where
  "start w fs = \<lparr>world = w, files = fs, calls = []\<rparr>"

type_synonym ('w, 'e, 'img) action = "('w, 'img) state \<Rightarrow> 'e option \<times> ('w, 'img) state"

text \<open>
  One call of the script. The call is recorded whether it returns or raises. A
  \<^verbatim>\<open>page.screenshot(path=p)\<close> that returns has stored the image at \<open>p\<close>, replacing
  whatever the path held; no other call of the script names a file.
\<close>

definition perform :: "('w, 'e, 'img) driver \<Rightarrow> call \<Rightarrow> ('w, 'e, 'img) action" where
  "perform drv c s =
     (case respond drv c (world s) of
        (None, w') \<Rightarrow>
          (None, s\<lparr>world := w',
                   files := (case c of Screenshot p \<Rightarrow> (files s)(p \<mapsto> render drv w')
                             | _ \<Rightarrow> files s),
                   calls := calls s @ [c]\<rparr>)
      | (Some e, w') \<Rightarrow> (Some e, s\<lparr>world := w', calls := calls s @ [c]\<rparr>))"

subsection \<open>Python's control flow\<close>

text \<open>Two statements in sequence: the second runs only when the first returned.\<close>

definition and_then ::
  "('w, 'e, 'img) action \<Rightarrow> ('w, 'e, 'img) action \<Rightarrow> ('w, 'e, 'img) action" where
  "and_then m k s = (case m s of (None, s') \<Rightarrow> k s' | (Some e, s') \<Rightarrow> (Some e, s'))"

text \<open>
  \<^verbatim>\<open>try: body finally: fin\<close>. The \<^verbatim>\<open>finally\<close> clause runs whether the body returned
  or raised. When the clause returns, the body's outcome stands; when the clause itself
  raises, its exception is the one that propagates.
\<close>

definition try_finally ::
  "('w, 'e, 'img) action \<Rightarrow> ('w, 'e, 'img) action \<Rightarrow> ('w, 'e, 'img) action" where
  "try_finally body fin s =
     (case body s of
        (r, s') \<Rightarrow> (case fin s' of (None, s'') \<Rightarrow> (r, s'') | (Some e, s'') \<Rightarrow> (Some e, s'')))"

text \<open>
  \<^verbatim>\<open>with sync_playwright() as p: body\<close>. When entering raises, nothing else runs. Otherwise
  the exit runs after the body, whether the body returned or raised; the exit does not
  swallow the body's exception.
\<close>

definition with_sync_playwright ::
  "('w, 'e, 'img) driver \<Rightarrow> ('w, 'e, 'img) action \<Rightarrow> ('w, 'e, 'img) action" where
  "with_sync_playwright drv body s =
     (case perform drv Sync_playwright_enter s of
        (Some e, s') \<Rightarrow> (Some e, s')
      | (None, s') \<Rightarrow> try_finally body (perform drv Sync_playwright_exit) s')"

subsection \<open>The script\<close>

text \<open>The body of the \<^verbatim>\<open>try\<close> statement, lines 9 to 40 of the script.\<close>

definition try_block :: "('w, 'e, 'img) driver \<Rightarrow> ('w, 'e, 'img) action" where
  "try_block drv =
     and_then (perform drv (Goto ''http://localhost:8081''))
    (and_then (perform drv (Screenshot ''jules-scratch/verification/dashboard-page.png''))
    (let edit_button = First (Get_by_role ''button'' ''Edit'') in
     and_then (perform drv (Click edit_button))
    (and_then (perform drv (Expect_to_be_visible (Get_by_text ''Edit Expense'')))
    (and_then (perform drv (Screenshot ''jules-scratch/verification/edit-expense-page.png''))
    (let update_button = Get_by_role ''button'' ''Update Expense'' in
     and_then (perform drv (Click update_button))
    (and_then (perform drv (Expect_to_be_visible (Get_by_text ''No Changes'')))
    (and_then (perform drv (Screenshot ''jules-scratch/verification/no-changes-alert.png''))
    (and_then (perform drv Go_back)
    (and_then (perform drv (Expect_to_be_visible (Get_by_text ''Discard changes?'')))
              (perform drv (Screenshot ''jules-scratch/verification/discard-changes-alert.png''))
    )))))))))"

text \<open>\<^verbatim>\<open>run_verification\<close>, lines 3 to 43.\<close>

definition run_verification :: "('w, 'e, 'img) driver \<Rightarrow> ('w, 'e, 'img) action" where
  "run_verification drv =
     with_sync_playwright drv
       (and_then (perform drv (Chromium_launch True))
       (and_then (perform drv New_page)
       (try_finally (try_block drv) (perform drv Browser_close))))"

text \<open>
  Lines 45 and 46, the body of the module: \<^verbatim>\<open>run_verification()\<close> is called, with no
  argument, when \<^verbatim>\<open>__name__\<close> is \<^verbatim>\<open>"__main__"\<close>; otherwise nothing runs.
\<close>

definition module_body :: "string \<Rightarrow> ('w, 'e, 'img) driver \<Rightarrow> ('w, 'e, 'img) action" where
  "module_body name drv s = (if name = ''__main__'' then run_verification drv s else (None, s))"

text \<open>
  How the interpreter ends the process. When the module body returns, the status is 0.
  When an exception leaves it unhandled, the ending depends on the class of the
  exception: \<^verbatim>\<open>SystemExit\<close> ends the process with the status its argument stands for;
  \<^verbatim>\<open>KeyboardInterrupt\<close> ends it by the signal SIGINT, number 2; any other exception ends
  it with status 1, after the traceback is printed.
\<close>

datatype exception_class = System_exit nat | Keyboard_interrupt | Other_exception

datatype ending = Exit nat | Killed_by_signal nat

definition interpreter_ending :: "exception_class option \<Rightarrow> ending" where
  "interpreter_ending r =
     (case r of
        None \<Rightarrow> Exit 0
      | Some (System_exit status) \<Rightarrow> Exit status
      | Some Keyboard_interrupt \<Rightarrow> Killed_by_signal 2
      | Some Other_exception \<Rightarrow> Exit 1)"

text \<open>
  The process of the script. Run as a script, the module has the name \<^verbatim>\<open>"__main__"\<close>.
  Like every process it receives an argument vector and an environment; the script reads
  neither. \<open>class_of e\<close> is the class of the Python exception \<open>e\<close>.
\<close>

definition main ::
  "('w, 'e, 'img) driver \<Rightarrow> ('e \<Rightarrow> exception_class) \<Rightarrow> string list \<Rightarrow> (string \<rightharpoonup> string)
     \<Rightarrow> ('w, 'img) state \<Rightarrow> ending \<times> ('w, 'img) state" where
  "main drv class_of argv environ s =
     (case module_body ''__main__'' drv s of
        (r, s') \<Rightarrow> (interpreter_ending (map_option class_of r), s'))"

section \<open>Describing a run\<close>

text \<open>
  The definitions of this section are not part of the script. They are the words in
  which its properties are stated: what a list of calls does when each call is made in
  turn, which of them raises first, and what the world is afterwards.
\<close>

text \<open>Make the calls of a list in order, stopping at the first one that raises.\<close>

fun run_calls :: "('w, 'e, 'img) driver \<Rightarrow> call list \<Rightarrow> ('w, 'e, 'img) action" where
  "run_calls drv [] s = (None, s)"
| "run_calls drv (c # cs) s =
     (case perform drv c s of (None, s') \<Rightarrow> run_calls drv cs s' | (Some e, s') \<Rightarrow> (Some e, s'))"

text \<open>
  \<open>first_failure drv cs w\<close>: when the calls \<open>cs\<close> are answered in order from world
  \<open>w\<close>, the position (from 0) of the first one that raises and what it raises;
  \<open>None\<close> when all of them return.
\<close>

fun first_failure :: "('w, 'e, 'img) driver \<Rightarrow> call list \<Rightarrow> 'w \<Rightarrow> (nat \<times> 'e) option" where
  "first_failure drv [] w = None"
| "first_failure drv (c # cs) w =
     (case respond drv c w of
        (Some e, w') \<Rightarrow> Some (0, e)
      | (None, w') \<Rightarrow> map_option (\<lambda>(k, e). (Suc k, e)) (first_failure drv cs w'))"

text \<open>The world after the calls \<open>cs\<close> have all been answered, one after the other.\<close>

fun replay :: "('w, 'e, 'img) driver \<Rightarrow> call list \<Rightarrow> 'w \<Rightarrow> 'w" where
  "replay drv [] w = w"
| "replay drv (c # cs) w = replay drv cs (snd (respond drv c w))"

text \<open>How many calls of \<open>cs\<close> are made before the list is left: all, or up to the first that raises.\<close>

definition issued :: "('w, 'e, 'img) driver \<Rightarrow> call list \<Rightarrow> 'w \<Rightarrow> nat" where
  "issued drv cs w = (case first_failure drv cs w of None \<Rightarrow> length cs | Some (k, e) \<Rightarrow> Suc k)"

text \<open>
  The calls of lines 4 to 6, made before the \<^verbatim>\<open>try\<close> statement is entered, and the
  eleven calls of its body, in the order of the source.
\<close>

definition setup_calls :: "call list" where
  "setup_calls = [Sync_playwright_enter, Chromium_launch True, New_page]"

definition body_calls :: "call list" where
  "body_calls =
     [Goto ''http://localhost:8081'',
      Screenshot ''jules-scratch/verification/dashboard-page.png'',
      Click (First (Get_by_role ''button'' ''Edit'')),
      Expect_to_be_visible (Get_by_text ''Edit Expense''),
      Screenshot ''jules-scratch/verification/edit-expense-page.png'',
      Click (Get_by_role ''button'' ''Update Expense''),
      Expect_to_be_visible (Get_by_text ''No Changes''),
      Screenshot ''jules-scratch/verification/no-changes-alert.png'',
      Go_back,
      Expect_to_be_visible (Get_by_text ''Discard changes?''),
      Screenshot ''jules-scratch/verification/discard-changes-alert.png'']"

text \<open>The world when the \<^verbatim>\<open>try\<close> body is left, by its end or by an exception.\<close>

definition after_body :: "('w, 'e, 'img) driver \<Rightarrow> 'w \<Rightarrow> 'w" where
  "after_body drv w =
     replay drv (take (issued drv body_calls (replay drv setup_calls w)) body_calls)
       (replay drv setup_calls w)"

fun is_launch :: "call \<Rightarrow> bool" where
  "is_launch (Chromium_launch h) = True"
| "is_launch _ = False"

text \<open>
  A driver for examples. Its world is the number of calls answered so far; the calls
  whose number is in \<open>bad\<close> raise, with that number as the exception; the image of a
  screenshot is the number of the world it was taken in.
\<close>

definition scripted :: "nat list \<Rightarrow> (nat, nat, nat) driver" where
  "scripted bad =
     \<lparr>respond = (\<lambda>c n. (if n \<in> set bad then Some n else None, Suc n)), render = (\<lambda>n. n)\<rparr>"

text \<open>All sixteen calls of a run in which nothing raises, in order.\<close>

definition script_calls :: "call list" where
  "script_calls = setup_calls @ body_calls @ [Browser_close, Sync_playwright_exit]"

text \<open>The paths of the screenshots among a list of calls, in order.\<close>

fun shots :: "call list \<Rightarrow> string list" where
  "shots [] = []"
| "shots (Screenshot p # cs) = p # shots cs"
| "shots (c # cs) = shots cs"

text \<open>
  The files after the calls \<open>cs\<close> have all returned, starting from the files \<open>fs\<close>:
  each screenshot stores its image at its path.
\<close>

fun written :: "('w, 'e, 'img) driver \<Rightarrow> call list \<Rightarrow> 'w \<Rightarrow> (string \<rightharpoonup> 'img) \<Rightarrow> (string \<rightharpoonup> 'img)" where
  "written drv [] w fs = fs"
| "written drv (c # cs) w fs =
     written drv cs (snd (respond drv c w))
       (case c of Screenshot p \<Rightarrow> fs(p \<mapsto> render drv (snd (respond drv c w))) | _ \<Rightarrow> fs)"

text \<open>
  The calls made before the Edit button is clicked, and the calls made before the
  Update Expense button is clicked.
\<close>

definition dashboard_steps :: "call list" where
  "dashboard_steps =
     [Sync_playwright_enter, Chromium_launch True, New_page,
      Goto ''http://localhost:8081'',
      Screenshot ''jules-scratch/verification/dashboard-page.png'']"

definition edit_steps :: "call list" where
  "edit_steps =
     dashboard_steps @
     [Click (First (Get_by_role ''button'' ''Edit'')),
      Expect_to_be_visible (Get_by_text ''Edit Expense''),
      Screenshot ''jules-scratch/verification/edit-expense-page.png'']"

subsection \<open>What the library promises about locators\<close>

text \<open>
  How a locator finds its elements is the library's business, not the script's. Where a
  property of the script depends on it, the library's rule is a hypothesis on the
  driver, stated with two observations of the world: \<open>found l w\<close>, the elements of the
  page that locator \<open>l\<close> designates in world \<open>w\<close>, in document order, and
  \<open>invoke c w\<close>, what activating the element \<open>c\<close> does.

  \<open>first_narrows\<close>: \<^verbatim>\<open>.first\<close> keeps the first of the designated elements.
  \<open>click_resolves\<close>: \<^verbatim>\<open>click()\<close> on a locator that designates no element raises
  \<open>not_found\<close>; on a locator that designates exactly one element it activates that
  element; on a locator that designates several it raises \<open>ambiguous\<close> (the library's
  strict mode).
\<close>

definition first_narrows :: "(locator \<Rightarrow> 'w \<Rightarrow> 'c list) \<Rightarrow> bool" where
  "first_narrows found \<longleftrightarrow> (\<forall>l w. found (First l) w = take 1 (found l w))"

definition click_resolves ::
  "('w, 'e, 'img) driver \<Rightarrow> (locator \<Rightarrow> 'w \<Rightarrow> 'c list) \<Rightarrow> ('c \<Rightarrow> 'w \<Rightarrow> 'e option \<times> 'w)
     \<Rightarrow> (locator \<Rightarrow> 'e) \<Rightarrow> (locator \<Rightarrow> 'e) \<Rightarrow> bool" where
  "click_resolves drv found invoke not_found ambiguous \<longleftrightarrow>
     (\<forall>l w. case found l w of
               [] \<Rightarrow> fst (respond drv (Click l) w) = Some (not_found l)
             | [c] \<Rightarrow> respond drv (Click l) w = invoke c w
             | _ \<Rightarrow> fst (respond drv (Click l) w) = Some (ambiguous l))"

text \<open>
  A second driver for examples, which follows these rules. A page is a fixed list of
  controls, each with a number, a role and an accessible name; the world is the list of
  the controls clicked so far.
\<close>

type_synonym control = "nat \<times> string \<times> string"

fun matching :: "control list \<Rightarrow> locator \<Rightarrow> control list" where
  "matching page (Get_by_role r n) = filter (\<lambda>(i, r', n'). r' = r \<and> n' = n) page"
| "matching page (Get_by_text t) = []"
| "matching page (First l) = take 1 (matching page l)"

definition page_driver :: "control list \<Rightarrow> (control list, string, unit) driver" where
  "page_driver page =
     \<lparr>respond = (\<lambda>c w. case c of
          Click l \<Rightarrow> (case matching page l of
                        [] \<Rightarrow> (Some ''no such element'', w)
                      | [x] \<Rightarrow> (None, w @ [x])
                      | _ \<Rightarrow> (Some ''strict mode violation'', w))
        | _ \<Rightarrow> (None, w)),
      render = (\<lambda>w. ())\<rparr>"

subsection \<open>What the library promises about visibility assertions\<close>

text \<open>
  Modelled from the spec: \<^verbatim>\<open>expect(locator).to_be_visible()\<close> is a function of the
  Playwright library, which is not under src/; the script only calls it. The spec
  (section 4.1, step 5, and section 9) describes it as a bounded retry loop with a fixed
  timeout and a fixed interval: the visibility check is repeated until it succeeds or
  the timeout elapses, and on timeout the assertion fails with a descriptive error.

  \<open>visible l w\<close> is the visibility check for locator \<open>l\<close> in world \<open>w\<close>; \<open>wait i w\<close> is
  the world after waiting \<open>i\<close> time units in world \<open>w\<close>; \<open>elapsed\<close> is the time waited so
  far. The loop waits again only while a whole interval still fits before the timeout.
  An interval of zero lets no time pass, so the loop gives up at once rather than spin.
\<close>

function to_be_visible ::
  "(locator \<Rightarrow> 'w \<Rightarrow> bool) \<Rightarrow> (nat \<Rightarrow> 'w \<Rightarrow> 'w) \<Rightarrow> (locator \<Rightarrow> 'e) \<Rightarrow> nat \<Rightarrow> nat \<Rightarrow> nat
     \<Rightarrow> locator \<Rightarrow> 'w \<Rightarrow> 'e option \<times> 'w" where
  "to_be_visible visible wait timeout_error timeout interval elapsed l w =
     (if visible l w then (None, w)
      else if interval = 0 \<or> timeout < elapsed + interval then (Some (timeout_error l), w)
      else to_be_visible visible wait timeout_error timeout interval (elapsed + interval) l
             (wait interval w))"
  by pat_completeness auto
termination
  by (relation "measure (\<lambda>(visible, wait, timeout_error, timeout, interval, elapsed, l, w).
                           timeout - elapsed)") auto

declare to_be_visible.simps [simp del]

text \<open>The hypothesis on a driver that its visibility assertions are this loop, started afresh.\<close>

definition expect_polls ::
  "('w, 'e, 'img) driver \<Rightarrow> (locator \<Rightarrow> 'w \<Rightarrow> bool) \<Rightarrow> (nat \<Rightarrow> 'w \<Rightarrow> 'w) \<Rightarrow> (locator \<Rightarrow> 'e)
     \<Rightarrow> nat \<Rightarrow> nat \<Rightarrow> bool" where
  "expect_polls drv visible wait timeout_error timeout interval \<longleftrightarrow>
     (\<forall>l w. respond drv (Expect_to_be_visible l) w =
              to_be_visible visible wait timeout_error timeout interval 0 l w)"

text \<open>The locators of the visibility assertions among a list of calls, in order.\<close>

fun expectations :: "call list \<Rightarrow> locator list" where
  "expectations [] = []"
| "expectations (Expect_to_be_visible l # cs) = l # expectations cs"
| "expectations (c # cs) = expectations cs"

text \<open>
  A third driver for examples, whose visibility assertions poll every 100 time units for
  at most 300. Its world is the time; the text ``Edit Expense'' is visible from time 200
  on and no other text ever is.
\<close>

definition polling_driver :: "(nat, string, unit) driver" where
  "polling_driver =
     \<lparr>respond = (\<lambda>c w. case c of
          Expect_to_be_visible l \<Rightarrow>
            to_be_visible (\<lambda>l w. l = Get_by_text ''Edit Expense'' \<and> 200 \<le> w) (\<lambda>i w. w + i)
              (\<lambda>l. ''timed out waiting for the locator to be visible'') 300 100 0 l w
        | _ \<Rightarrow> (None, w)),
      render = (\<lambda>w. ())\<rparr>"

section \<open>How the script composes its calls\<close>

subsection \<open>One call, and a list of calls\<close>

lemma world_perform: "world (snd (perform drv c s)) = snd (respond drv c (world s))"
  by (simp add: perform_def split: prod.splits option.splits)

lemma calls_perform: "calls (snd (perform drv c s)) = calls s @ [c]"
  by (simp add: perform_def split: prod.splits option.splits)

lemma fst_perform: "fst (perform drv c s) = fst (respond drv c (world s))"
  by (simp add: perform_def split: prod.splits option.splits)

lemma run_calls_single: "run_calls drv [c] = perform drv c"
  by (rule ext) (simp split: prod.splits option.splits)

lemma and_then_run_calls: "and_then (perform drv c) (run_calls drv cs) = run_calls drv (c # cs)"
  by (rule ext) (simp add: and_then_def)

lemma and_then_last: "and_then (perform drv c) (perform drv d) = run_calls drv [c, d]"
  by (simp only: run_calls_single [symmetric, of drv d] and_then_run_calls)

lemma try_block_run_calls: "try_block drv = run_calls drv body_calls"
  unfolding try_block_def body_calls_def Let_def
  by (simp only: and_then_last and_then_run_calls)

lemma first_failure_bound: "first_failure drv cs w = Some (k, e) \<Longrightarrow> k < length cs"
  by (induction cs arbitrary: w k) (auto split: prod.splits option.splits)

lemma issued_le: "issued drv cs w \<le> length cs"
  using first_failure_bound [of drv cs w]
  by (auto simp: issued_def split: option.splits) 

lemma fst_run_calls: "fst (run_calls drv cs s) = map_option snd (first_failure drv cs (world s))"
proof (induction cs arbitrary: s)
  case Nil
  show ?case by simp
next
  case (Cons c cs)
  show ?case
  proof (cases "perform drv c s")
    case (Pair r s')
    have r: "r = fst (respond drv c (world s))" and w: "world s' = snd (respond drv c (world s))"
      using Pair fst_perform [of drv c s] world_perform [of drv c s] by simp_all
    show ?thesis
      using Pair r w Cons.IH [of s']
      by (cases "respond drv c (world s)")
         (auto simp: option.map_comp comp_def case_prod_beta split: option.splits)
  qed
qed

lemma calls_run_calls: "calls (snd (run_calls drv cs s)) = calls s @ take (issued drv cs (world s)) cs"
proof (induction cs arbitrary: s)
  case Nil
  show ?case by simp
next
  case (Cons c cs)
  show ?case
  proof (cases "perform drv c s")
    case (Pair r s')
    have r: "r = fst (respond drv c (world s))" and w: "world s' = snd (respond drv c (world s))"
      and l: "calls s' = calls s @ [c]"
      using Pair fst_perform [of drv c s] world_perform [of drv c s] calls_perform [of drv c s] by simp_all
    show ?thesis
      using Pair r w l Cons.IH [of s']
      by (cases "respond drv c (world s)") (auto simp: issued_def split: option.splits prod.splits)
  qed
qed

lemma world_run_calls: "world (snd (run_calls drv cs s)) = replay drv (take (issued drv cs (world s)) cs) (world s)"
proof (induction cs arbitrary: s)
  case Nil
  show ?case by simp
next
  case (Cons c cs)
  show ?case
  proof (cases "perform drv c s")
    case (Pair r s')
    have r: "r = fst (respond drv c (world s))" and w: "world s' = snd (respond drv c (world s))"
      using Pair fst_perform [of drv c s] world_perform [of drv c s] by simp_all
    show ?thesis
      using Pair r w Cons.IH [of s']
      by (cases "respond drv c (world s)") (auto simp: issued_def split: option.splits prod.splits)
  qed
qed


subsection \<open>The finally clause and the with statement\<close>

lemma files_perform:
  "files (snd (perform drv c s)) =
     (case respond drv c (world s) of
        (None, w') \<Rightarrow> (case c of Screenshot p \<Rightarrow> (files s)(p \<mapsto> render drv w') | _ \<Rightarrow> files s)
      | (Some e, w') \<Rightarrow> files s)"
  by (simp add: perform_def split: prod.splits option.splits)

lemma try_finally_alt:
  "try_finally body fin s =
     ((case fst (fin (snd (body s))) of None \<Rightarrow> fst (body s) | Some e \<Rightarrow> Some e),
      snd (fin (snd (body s))))"
  by (simp add: try_finally_def split: prod.splits option.splits)

lemma calls_try_finally:
  "calls (snd (try_finally body (perform drv c) s)) = calls (snd (body s)) @ [c]"
  by (simp add: try_finally_alt calls_perform)

lemma world_try_finally:
  "world (snd (try_finally body (perform drv c) s)) = snd (respond drv c (world (snd (body s))))"
  by (simp add: try_finally_alt world_perform)

lemma fst_try_finally:
  "fst (try_finally body (perform drv c) s) =
     (case fst (respond drv c (world (snd (body s)))) of None \<Rightarrow> fst (body s) | Some e \<Rightarrow> Some e)"
  by (simp add: try_finally_alt fst_perform)

lemma files_try_finally:
  "files (snd (try_finally body (perform drv c) s)) = files (snd (perform drv c (snd (body s))))"
  by (simp add: try_finally_alt)

lemma with_sync_playwright_and_then:
  "with_sync_playwright drv body =
     and_then (perform drv Sync_playwright_enter) (try_finally body (perform drv Sync_playwright_exit))"
  by (rule ext) (simp add: with_sync_playwright_def and_then_def split: prod.splits option.splits)

lemma and_then_returned:
  "fst (m s) = None \<Longrightarrow> and_then m k s = k (snd (m s))"
  by (cases "m s") (simp add: and_then_def)

lemma and_then_raised:
  "fst (m s) = Some e \<Longrightarrow> and_then m k s = m s"
  by (cases "m s") (simp add: and_then_def)

lemma and_then_assoc: "and_then (and_then m k) j = and_then m (and_then k j)"
  by (rule ext) (simp add: and_then_def split: prod.splits option.splits)

lemma run_verification_unfold:
  "run_verification drv =
     and_then (perform drv Sync_playwright_enter)
       (try_finally
          (and_then (run_calls drv [Chromium_launch True, New_page])
             (try_finally (run_calls drv body_calls) (perform drv Browser_close)))
          (perform drv Sync_playwright_exit))"
proof -
  have "and_then (perform drv (Chromium_launch True)) (and_then (perform drv New_page) k) =
        and_then (run_calls drv [Chromium_launch True, New_page]) k" for k
    by (simp only: and_then_last [symmetric] and_then_assoc)
  then show ?thesis
    by (simp only: run_verification_def with_sync_playwright_and_then try_block_run_calls)
qed

subsection \<open>Whether the try statement is reached\<close>

lemma first_failure_append:
  "first_failure drv (xs @ ys) w =
     (case first_failure drv xs w of
        Some (k, e) \<Rightarrow> Some (k, e)
      | None \<Rightarrow> map_option (\<lambda>(k, e). (length xs + k, e)) (first_failure drv ys (replay drv xs w)))"
proof (induction xs arbitrary: w)
  case Nil
  show ?case by (simp add: option.map_id case_prod_beta id_def [symmetric])
next
  case (Cons c xs)
  show ?case
    by (cases "respond drv c w")
       (auto simp: Cons.IH option.map_comp comp_def case_prod_beta split: option.splits)
qed

lemma replay_append: "replay drv (xs @ ys) w = replay drv ys (replay drv xs w)"
  by (induction xs arbitrary: w) simp_all

lemma setup_returned:
  assumes "first_failure drv setup_calls (world s) = None"
  shows "run_verification drv s =
           try_finally (try_finally (run_calls drv body_calls) (perform drv Browser_close))
             (perform drv Sync_playwright_exit) (snd (run_calls drv setup_calls s))"
proof -
  have split: "setup_calls = [Sync_playwright_enter] @ [Chromium_launch True, New_page]"
    by (simp add: setup_calls_def)
  have e: "first_failure drv [Sync_playwright_enter] (world s) = None"
    and r: "first_failure drv [Chromium_launch True, New_page]
              (replay drv [Sync_playwright_enter] (world s)) = None"
    using assms unfolding split first_failure_append by (auto split: option.splits)
  have e': "fst (perform drv Sync_playwright_enter s) = None"
    using e fst_run_calls [of drv "[Sync_playwright_enter]" s] by (simp add: run_calls_single)
  let ?s1 = "snd (perform drv Sync_playwright_enter s)"
  have w1: "world ?s1 = replay drv [Sync_playwright_enter] (world s)"
    by (simp add: world_perform)
  have r': "fst (run_calls drv [Chromium_launch True, New_page] ?s1) = None"
    using r by (simp only: fst_run_calls w1) simp
  have s3: "snd (run_calls drv setup_calls s) = snd (run_calls drv [Chromium_launch True, New_page] ?s1)"
    using e' by (cases "perform drv Sync_playwright_enter s") (simp add: setup_calls_def)
  show ?thesis
    unfolding run_verification_unfold
    by (simp only: and_then_returned [of "perform drv Sync_playwright_enter" s, OF e'] s3)
       (simp add: try_finally_def and_then_returned [of "run_calls drv [Chromium_launch True, New_page]" ?s1, OF r'])
qed



lemma issued_all: "first_failure drv cs w = None \<Longrightarrow> issued drv cs w = length cs"
  by (simp add: issued_def)

lemma issued_at: "first_failure drv cs w = Some (k, e) \<Longrightarrow> issued drv cs w = Suc k"
  by (simp add: issued_def)

lemma guarded_calls:
  assumes "first_failure drv setup_calls (world s) = None"
  shows "calls (snd (run_verification drv s)) =
           calls s @ setup_calls
             @ take (issued drv body_calls (replay drv setup_calls (world s))) body_calls
             @ [Browser_close, Sync_playwright_exit]"
  by (simp add: setup_returned [OF assms] calls_try_finally calls_run_calls world_run_calls
        issued_all [OF assms])

lemma guarded_world_body:
  assumes "first_failure drv setup_calls (world s) = None"
  shows "world (snd (run_calls drv body_calls (snd (run_calls drv setup_calls s)))) =
           after_body drv (world s)"
  by (simp add: world_run_calls issued_all [OF assms] after_body_def)

lemma guarded_outcome:
  assumes "first_failure drv setup_calls (world s) = None"
  shows "fst (run_verification drv s) =
           (case fst (respond drv Sync_playwright_exit
                        (snd (respond drv Browser_close (after_body drv (world s))))) of
              Some e \<Rightarrow> Some e
            | None \<Rightarrow>
               (case fst (respond drv Browser_close (after_body drv (world s))) of
                  Some e \<Rightarrow> Some e
                | None \<Rightarrow> map_option snd
                    (first_failure drv body_calls (replay drv setup_calls (world s)))))"
proof -
  have "world (snd (run_calls drv setup_calls s)) = replay drv setup_calls (world s)"
    by (simp add: world_run_calls issued_all [OF assms])
  then have body:
    "fst (run_calls drv body_calls (snd (run_calls drv setup_calls s))) =
       map_option snd (first_failure drv body_calls (replay drv setup_calls (world s)))"
    by (simp add: fst_run_calls)
  show ?thesis
    by (simp add: setup_returned [OF assms] fst_try_finally world_try_finally
          guarded_world_body [OF assms] body cong: option.case_cong)
qed

lemma guarded_world:
  assumes "first_failure drv setup_calls (world s) = None"
  shows "world (snd (run_verification drv s)) =
           replay drv [Browser_close, Sync_playwright_exit] (after_body drv (world s))"
  by (simp add: setup_returned [OF assms] world_try_finally guarded_world_body [OF assms])

lemma enter_raised:
  assumes "first_failure drv setup_calls (world s) = Some (0, e)"
  shows "run_verification drv s = perform drv Sync_playwright_enter s"
    and "fst (run_verification drv s) = Some e"
proof -
  have e: "fst (perform drv Sync_playwright_enter s) = Some e"
    using assms
    by (cases "respond drv Sync_playwright_enter (world s)")
       (auto simp: setup_calls_def fst_perform split: option.splits)
  show "run_verification drv s = perform drv Sync_playwright_enter s"
    unfolding run_verification_unfold
    by (rule and_then_raised [of "perform drv Sync_playwright_enter" s, OF e])
  then show "fst (run_verification drv s) = Some e" using e by simp
qed

lemma setup_raised:
  assumes "first_failure drv setup_calls (world s) = Some (Suc k, e)"
  shows "run_verification drv s =
           try_finally (run_calls drv [Chromium_launch True, New_page])
             (perform drv Sync_playwright_exit) (snd (perform drv Sync_playwright_enter s))"
    and "first_failure drv [Chromium_launch True, New_page]
           (snd (respond drv Sync_playwright_enter (world s))) = Some (k, e)"
proof -
  have r: "fst (respond drv Sync_playwright_enter (world s)) = None"
    and f: "first_failure drv [Chromium_launch True, New_page]
           (snd (respond drv Sync_playwright_enter (world s))) = Some (k, e)"
    using assms
    by (cases "respond drv Sync_playwright_enter (world s)";
        auto simp: setup_calls_def split: option.splits prod.splits)+
  show "first_failure drv [Chromium_launch True, New_page]
           (snd (respond drv Sync_playwright_enter (world s))) = Some (k, e)" by (rule f)
  let ?s1 = "snd (perform drv Sync_playwright_enter s)"
  have e': "fst (perform drv Sync_playwright_enter s) = None"
    using r by (simp add: fst_perform)
  have "fst (run_calls drv [Chromium_launch True, New_page] ?s1) = Some e"
    using f by (simp only: fst_run_calls world_perform) simp
  then have "and_then (run_calls drv [Chromium_launch True, New_page]) j ?s1 =
             run_calls drv [Chromium_launch True, New_page] ?s1" for j
    by (rule and_then_raised)
  then show "run_verification drv s =
           try_finally (run_calls drv [Chromium_launch True, New_page])
             (perform drv Sync_playwright_exit) ?s1"
    unfolding run_verification_unfold
    by (simp only: and_then_returned [of "perform drv Sync_playwright_enter" s, OF e'])
       (simp add: try_finally_def)
qed

lemma body_no_release:
  "c \<in> set body_calls \<Longrightarrow> \<not> is_launch c \<and> c \<noteq> Browser_close \<and> c \<noteq> Sync_playwright_exit"
  by (auto simp: body_calls_def)


subsection \<open>Runs that return\<close>

lemma cleanup_returned:
  "first_failure drv [Browser_close, Sync_playwright_exit] w = None \<longleftrightarrow>
     fst (respond drv Browser_close w) = None
     \<and> fst (respond drv Sync_playwright_exit (snd (respond drv Browser_close w))) = None"
  by (cases "respond drv Browser_close w";
      cases "respond drv Sync_playwright_exit (snd (respond drv Browser_close w))")
     (auto split: option.splits)

lemma setup_raised_outcome:
  assumes "first_failure drv setup_calls (world s) = Some (k, e)"
  shows "fst (run_verification drv s) \<noteq> None"
proof (cases k)
  case 0
  then show ?thesis using enter_raised(2) [of drv s e] assms by simp
next
  case (Suc j)
  then have f: "first_failure drv setup_calls (world s) = Some (Suc j, e)" using assms by simp
  have "fst (run_calls drv [Chromium_launch True, New_page]
               (snd (perform drv Sync_playwright_enter s))) = Some e"
    using setup_raised(2) [OF f] by (simp only: fst_run_calls world_perform) simp
  then show ?thesis
    by (simp add: setup_raised(1) [OF f] fst_try_finally split: option.splits)
qed

lemma after_body_all:
  "first_failure drv body_calls (replay drv setup_calls w) = None \<Longrightarrow>
     after_body drv w = replay drv body_calls (replay drv setup_calls w)"
  by (simp add: after_body_def issued_all)

lemma returns_iff:
  "fst (run_verification drv s) = None \<longleftrightarrow> first_failure drv script_calls (world s) = None"
proof (cases "first_failure drv setup_calls (world s)")
  case (Some a)
  obtain k e where a: "a = (k, e)" by (cases a)
  have "fst (run_verification drv s) \<noteq> None"
    using setup_raised_outcome [of drv s k e] Some a by simp
  moreover have "first_failure drv script_calls (world s) \<noteq> None"
    using Some a by (simp add: script_calls_def first_failure_append)
  ultimately show ?thesis by auto
next
  case None
  show ?thesis
  proof (cases "first_failure drv body_calls (replay drv setup_calls (world s))")
    case (Some a)
    obtain k e where a: "a = (k, e)" by (cases a)
    have "fst (run_verification drv s) \<noteq> None"
      using Some a by (simp add: guarded_outcome [OF None] split: option.splits)
    moreover have "first_failure drv script_calls (world s) \<noteq> None"
      using None Some a by (simp add: script_calls_def first_failure_append)
    ultimately show ?thesis by auto
  next
    case body: None
    let ?wb = "replay drv body_calls (replay drv setup_calls (world s))"
    have "first_failure drv script_calls (world s) = None \<longleftrightarrow>
          first_failure drv [Browser_close, Sync_playwright_exit] ?wb = None"
      using None body
      by (simp add: script_calls_def first_failure_append del: first_failure.simps)
    moreover have "fst (run_verification drv s) = None \<longleftrightarrow>
          fst (respond drv Browser_close ?wb) = None
          \<and> fst (respond drv Sync_playwright_exit (snd (respond drv Browser_close ?wb))) = None"
      using body by (simp add: guarded_outcome [OF None] after_body_all split: option.splits)
    ultimately show ?thesis
      by (simp only: cleanup_returned)
  qed
qed

lemma returned_run:
  assumes "first_failure drv script_calls (world s) = None"
  shows "calls (snd (run_verification drv s)) = calls s @ script_calls"
    and "world (snd (run_verification drv s)) = replay drv script_calls (world s)"
proof -
  have s: "first_failure drv setup_calls (world s) = None"
    and b: "first_failure drv body_calls (replay drv setup_calls (world s)) = None"
    using assms by (auto simp: script_calls_def first_failure_append split: option.splits)
  show "calls (snd (run_verification drv s)) = calls s @ script_calls"
    by (simp add: guarded_calls [OF s] issued_all [OF b] script_calls_def)
  show "world (snd (run_verification drv s)) = replay drv script_calls (world s)"
    by (simp add: guarded_world [OF s] after_body_all [OF b] script_calls_def replay_append)
qed

lemma distinct_body: "distinct body_calls"
  by (simp add: body_calls_def)

lemma count_take_nth:
  "distinct xs \<Longrightarrow> k < length xs \<Longrightarrow> count_list (take (Suc k) xs) (xs ! k) = 1"
proof -
  assume d: "distinct xs" and k: "k < length xs"
  have t: "take (Suc k) xs = take k xs @ [xs ! k]"
    using k by (simp add: take_Suc_conv_app_nth)
  have "distinct (take (Suc k) xs)" using d by simp
  then have "xs ! k \<notin> set (take k xs)" unfolding t by simp
  then show ?thesis unfolding t by simp
qed

lemma body_not_setup:
  "c \<in> set body_calls \<Longrightarrow> c \<notin> set setup_calls"
  by (auto simp: body_calls_def setup_calls_def)

subsection \<open>The files\<close>

lemma files_run_calls:
  "first_failure drv cs (world s) = None \<Longrightarrow>
     files (snd (run_calls drv cs s)) = written drv cs (world s) (files s)"
proof (induction cs arbitrary: s)
  case Nil
  show ?case by simp
next
  case (Cons c cs)
  obtain r w' where r: "respond drv c (world s) = (r, w')" by (cases "respond drv c (world s)")
  have rn: "r = None" and rest: "first_failure drv cs w' = None"
    using Cons.prems r by (auto split: option.splits)
  obtain s' where p: "perform drv c s = (None, s')"
    using r rn by (simp add: perform_def)
  have w: "world s' = w'" using world_perform [of drv c s] p r by simp
  have f: "files s' = (case c of Screenshot p \<Rightarrow> (files s)(p \<mapsto> render drv w') | _ \<Rightarrow> files s)"
    using files_perform [of drv c s] p r rn by simp
  have sw: "snd (respond drv c (world s)) = w'" using r by simp
  show ?case
    unfolding written.simps sw
    using Cons.IH [of s'] rest by (simp add: p w f)
qed

lemma files_perform_other:
  "shots [c] = [] \<Longrightarrow> files (snd (perform drv c s)) = files s"
  by (cases c; cases "respond drv c (world s)") (auto simp: files_perform split: option.splits)

lemma files_perform_frame:
  "p \<notin> set (shots [c]) \<Longrightarrow> files (snd (perform drv c s)) p = files s p"
  by (cases c; cases "respond drv c (world s)") (auto simp: files_perform split: option.splits)

lemma shots_Cons: "set (shots (c # cs)) = set (shots [c]) \<union> set (shots cs)"
  by (cases c) auto

lemma files_run_calls_frame:
  "p \<notin> set (shots cs) \<Longrightarrow> files (snd (run_calls drv cs s)) p = files s p"
proof (induction cs arbitrary: s)
  case Nil
  show ?case by simp
next
  case (Cons c cs)
  have a: "p \<notin> set (shots [c])" and b: "p \<notin> set (shots cs)"
    using Cons.prems shots_Cons [of c cs] by auto
  show ?case
  proof (cases "perform drv c s")
    case (Pair r s')
    have "files s' p = files s p" using files_perform_frame [OF a, of drv s] Pair by simp
    then show ?thesis using Pair Cons.IH [OF b, of s'] by (cases r) simp_all
  qed
qed

lemma files_frame:
  assumes "p \<notin> set (shots body_calls)"
  shows "files (snd (run_verification drv s)) p = files s p"
proof (cases "first_failure drv setup_calls (world s)")
  case None
  have "p \<notin> set (shots setup_calls)" by (simp add: setup_calls_def)
  then show ?thesis
    by (simp add: setup_returned [OF None] files_try_finally files_perform_other
          files_run_calls_frame assms)
next
  case (Some a)
  obtain k e where a: "a = (k, e)" by (cases a)
  show ?thesis
  proof (cases k)
    case 0
    then show ?thesis
      using enter_raised(1) [of drv s e] Some a by (simp add: files_perform_other)
  next
    case (Suc j)
    then have f: "first_failure drv setup_calls (world s) = Some (Suc j, e)" using Some a by simp
    have "p \<notin> set (shots [Chromium_launch True, New_page])" by simp
    then show ?thesis
      by (simp add: setup_raised(1) [OF f] files_try_finally files_perform_other
            files_run_calls_frame del: run_calls.simps)
  qed
qed

lemma files_returned:
  assumes "first_failure drv script_calls (world s) = None"
  shows "files (snd (run_verification drv s)) =
           written drv body_calls (replay drv setup_calls (world s)) (files s)"
proof -
  have s: "first_failure drv setup_calls (world s) = None"
    and b: "first_failure drv body_calls (replay drv setup_calls (world s)) = None"
    using assms by (auto simp: script_calls_def first_failure_append split: option.splits)
  let ?s3 = "snd (run_calls drv setup_calls s)"
  have w3: "world ?s3 = replay drv setup_calls (world s)"
    by (simp add: world_run_calls issued_all [OF s])
  have f3: "files ?s3 = files s"
    using files_run_calls [OF s] by (simp add: setup_calls_def)
  have "files (snd (run_calls drv body_calls ?s3)) =
          written drv body_calls (replay drv setup_calls (world s)) (files s)"
    using files_run_calls [of drv body_calls ?s3] b by (simp add: w3 f3)
  then show ?thesis
    by (simp add: setup_returned [OF s] files_try_finally files_perform_other)
qed

subsection \<open>The calls of any run\<close>

lemma script_calls_list:
  "script_calls =
     [Sync_playwright_enter, Chromium_launch True, New_page,
      Goto ''http://localhost:8081'',
      Screenshot ''jules-scratch/verification/dashboard-page.png'',
      Click (First (Get_by_role ''button'' ''Edit'')),
      Expect_to_be_visible (Get_by_text ''Edit Expense''),
      Screenshot ''jules-scratch/verification/edit-expense-page.png'',
      Click (Get_by_role ''button'' ''Update Expense''),
      Expect_to_be_visible (Get_by_text ''No Changes''),
      Screenshot ''jules-scratch/verification/no-changes-alert.png'',
      Go_back,
      Expect_to_be_visible (Get_by_text ''Discard changes?''),
      Screenshot ''jules-scratch/verification/discard-changes-alert.png'',
      Browser_close, Sync_playwright_exit]"
  by (simp add: script_calls_def setup_calls_def body_calls_def)

lemma filter_take_body:
  "filter (\<lambda>c. c \<noteq> Browser_close \<and> c \<noteq> Sync_playwright_exit) (take n body_calls) = take n body_calls"
  using body_no_release in_set_takeD [of _ n body_calls] by (auto simp: filter_id_conv)

lemma take_Suc_script:
  assumes "n \<le> 2"
  shows "Sync_playwright_enter # take n [Chromium_launch True, New_page] = take (Suc n) script_calls"
proof -
  have "n = 0 \<or> n = 1 \<or> n = 2" using assms by arith
  then show ?thesis by (auto simp: script_calls_list)
qed

lemma calls_prefix:
  "\<exists>k. filter (\<lambda>c. c \<noteq> Browser_close \<and> c \<noteq> Sync_playwright_exit)
         (calls (snd (run_verification drv (start w fs)))) = take k script_calls"
proof (cases "first_failure drv setup_calls w")
  case None
  let ?n = "issued drv body_calls (replay drv setup_calls w)"
  have n: "?n \<le> length body_calls" by (rule issued_le)
  have "calls (snd (run_verification drv (start w fs))) =
          setup_calls @ take ?n body_calls @ [Browser_close, Sync_playwright_exit]"
    using guarded_calls [of drv "start w fs"] None by (simp add: start_def)
  then have "filter (\<lambda>c. c \<noteq> Browser_close \<and> c \<noteq> Sync_playwright_exit)
         (calls (snd (run_verification drv (start w fs)))) = setup_calls @ take ?n body_calls"
    by (simp add: filter_take_body) (simp add: setup_calls_def)
  also have "\<dots> = take (length setup_calls + ?n) script_calls"
    using n by (simp add: script_calls_def)
  finally show ?thesis by blast
next
  case (Some a)
  obtain k e where a: "a = (k, e)" by (cases a)
  show ?thesis
  proof (cases k)
    case 0
    have "calls (snd (run_verification drv (start w fs))) = [Sync_playwright_enter]"
      using enter_raised(1) [of drv "start w fs" e] Some a 0
      by (simp add: start_def calls_perform)
    then have "filter (\<lambda>c. c \<noteq> Browser_close \<and> c \<noteq> Sync_playwright_exit)
         (calls (snd (run_verification drv (start w fs)))) = take 1 script_calls"
      by (simp add: script_calls_list)
    then show ?thesis by blast
  next
    case (Suc j)
    then have f: "first_failure drv setup_calls (world (start w fs)) = Some (Suc j, e)"
      using Some a by (simp add: start_def)
    let ?w1 = "snd (respond drv Sync_playwright_enter w)"
    let ?n = "issued drv [Chromium_launch True, New_page] ?w1"
    have n: "?n \<le> 2" using issued_le [of drv "[Chromium_launch True, New_page]" ?w1] by simp
    have "calls (snd (run_verification drv (start w fs))) =
            Sync_playwright_enter # take ?n [Chromium_launch True, New_page] @ [Sync_playwright_exit]"
      by (simp add: setup_raised(1) [OF f] calls_try_finally calls_run_calls world_perform
            calls_perform del: run_calls.simps) (simp add: start_def)
    then have "filter (\<lambda>c. c \<noteq> Browser_close \<and> c \<noteq> Sync_playwright_exit)
         (calls (snd (run_verification drv (start w fs)))) =
           Sync_playwright_enter # take ?n [Chromium_launch True, New_page]"
      using in_set_takeD [of _ ?n "[Chromium_launch True, New_page]"]
      by (auto simp: filter_id_conv)
    also have "\<dots> = take (Suc ?n) script_calls"
      using n by (rule take_Suc_script)
    finally show ?thesis by blast
  qed
qed

lemma shots_script:
  "shots script_calls =
     [''jules-scratch/verification/dashboard-page.png'',
      ''jules-scratch/verification/edit-expense-page.png'',
      ''jules-scratch/verification/no-changes-alert.png'',
      ''jules-scratch/verification/discard-changes-alert.png'']"
  by (simp add: script_calls_list)

lemma shots_body: "shots body_calls = shots script_calls"
  by (simp add: script_calls_list body_calls_def)

lemma written_body:
  "written drv body_calls (replay drv setup_calls w) fs =
     fs(''jules-scratch/verification/dashboard-page.png'' \<mapsto>
          render drv (replay drv (take 5 script_calls) w),
        ''jules-scratch/verification/edit-expense-page.png'' \<mapsto>
          render drv (replay drv (take 8 script_calls) w),
        ''jules-scratch/verification/no-changes-alert.png'' \<mapsto>
          render drv (replay drv (take 11 script_calls) w),
        ''jules-scratch/verification/discard-changes-alert.png'' \<mapsto>
          render drv (replay drv (take 14 script_calls) w))"
  by (simp add: script_calls_list body_calls_def setup_calls_def)

subsection \<open>Runs that abort in the body\<close>

lemma first_failure_split:
  assumes "first_failure drv (take m cs) w = None"
  shows "first_failure drv cs w =
           map_option (\<lambda>(k, e). (min (length cs) m + k, e))
             (first_failure drv (drop m cs) (replay drv (take m cs) w))"
  using first_failure_append [of drv "take m cs" "drop m cs" w] assms by simp

lemma abort_outcome:
  assumes "first_failure drv setup_calls w = None"
      and "first_failure drv body_calls (replay drv setup_calls w) = Some (k, e)"
  shows "fst (run_verification drv (start w fs)) \<noteq> None"
  using assms guarded_outcome [of drv "start w fs"]
  by (simp add: start_def split: option.splits)

lemma abort_calls:
  assumes "first_failure drv setup_calls w = None"
      and "first_failure drv body_calls (replay drv setup_calls w) = Some (k, e)"
  shows "calls (snd (run_verification drv (start w fs))) =
           setup_calls @ take (Suc k) body_calls @ [Browser_close, Sync_playwright_exit]"
  using assms guarded_calls [of drv "start w fs"]
  by (simp add: start_def issued_at)

lemma abort_propagates:
  assumes "first_failure drv setup_calls w = None"
      and "first_failure drv body_calls (replay drv setup_calls w) = Some (k, e)"
      and "first_failure drv [Browser_close, Sync_playwright_exit]
             (replay drv (take (Suc k) body_calls) (replay drv setup_calls w)) = None"
  shows "fst (run_verification drv (start w fs)) = Some e"
proof -
  have ab: "after_body drv w = replay drv (take (Suc k) body_calls) (replay drv setup_calls w)"
    using assms(2) by (simp add: after_body_def issued_at)
  show ?thesis
    using assms guarded_outcome [of drv "start w fs"] unfolding cleanup_returned
    by (simp add: start_def ab)
qed

lemma dashboard_steps_split: "dashboard_steps = setup_calls @ take 2 body_calls"
  by (simp add: dashboard_steps_def setup_calls_def body_calls_def)

lemma edit_steps_split: "edit_steps = setup_calls @ take 5 body_calls"
  by (simp add: edit_steps_def dashboard_steps_def setup_calls_def body_calls_def)

lemma reached:
  assumes "first_failure drv (setup_calls @ take m body_calls) w = None"
  shows "first_failure drv setup_calls w = None"
    and "first_failure drv (take m body_calls) (replay drv setup_calls w) = None"
    and "first_failure drv body_calls (replay drv setup_calls w) =
           map_option (\<lambda>(k, e). (min (length body_calls) m + k, e))
             (first_failure drv (drop m body_calls)
                (replay drv (setup_calls @ take m body_calls) w))"
proof -
  show s: "first_failure drv setup_calls w = None"
    and t: "first_failure drv (take m body_calls) (replay drv setup_calls w) = None"
    using assms by (auto simp: first_failure_append split: option.splits)
  show "first_failure drv body_calls (replay drv setup_calls w) =
           map_option (\<lambda>(k, e). (min (length body_calls) m + k, e))
             (first_failure drv (drop m body_calls)
                (replay drv (setup_calls @ take m body_calls) w))"
    using first_failure_split [OF t] by (simp add: replay_append)
qed

lemma drop_2_body:
  "drop 2 body_calls = Click (First (Get_by_role ''button'' ''Edit'')) # drop 3 body_calls"
  by (simp add: body_calls_def)

lemma drop_5_body:
  "drop 5 body_calls = Click (Get_by_role ''button'' ''Update Expense'') # drop 6 body_calls"
  by (simp add: body_calls_def)

lemma length_body: "length body_calls = 11"
  by (simp add: body_calls_def)

subsection \<open>Consequences of the rules for locators\<close>

lemma click_none:
  assumes "click_resolves drv found invoke not_found ambiguous" and "found l w = []"
  shows "fst (respond drv (Click l) w) = Some (not_found l)"
proof -
  have "case found l w of
          [] \<Rightarrow> fst (respond drv (Click l) w) = Some (not_found l)
        | [c] \<Rightarrow> respond drv (Click l) w = invoke c w
        | _ \<Rightarrow> fst (respond drv (Click l) w) = Some (ambiguous l)"
    using assms(1) unfolding click_resolves_def by blast
  then show ?thesis by (simp add: assms(2))
qed

lemma click_one:
  assumes "click_resolves drv found invoke not_found ambiguous" and "found l w = [c]"
  shows "respond drv (Click l) w = invoke c w"
proof -
  have "case found l w of
          [] \<Rightarrow> fst (respond drv (Click l) w) = Some (not_found l)
        | [c] \<Rightarrow> respond drv (Click l) w = invoke c w
        | _ \<Rightarrow> fst (respond drv (Click l) w) = Some (ambiguous l)"
    using assms(1) unfolding click_resolves_def by blast
  then show ?thesis by (simp add: assms(2))
qed

lemma click_many:
  assumes "click_resolves drv found invoke not_found ambiguous" and "1 < length (found l w)"
  shows "fst (respond drv (Click l) w) = Some (ambiguous l)"
proof -
  have c: "case found l w of
          [] \<Rightarrow> fst (respond drv (Click l) w) = Some (not_found l)
        | [c] \<Rightarrow> respond drv (Click l) w = invoke c w
        | _ \<Rightarrow> fst (respond drv (Click l) w) = Some (ambiguous l)"
    using assms(1) unfolding click_resolves_def by blast
  obtain x y zs where "found l w = x # y # zs"
  proof (cases "found l w")
    case Nil
    then show ?thesis using assms(2) by simp
  next
    case (Cons x ys)
    then show ?thesis using assms(2) that by (cases ys) simp_all
  qed
  then show ?thesis using c by simp
qed

lemma page_driver_narrows: "first_narrows (\<lambda>l w. matching page l)"
  by (simp add: first_narrows_def)

lemma page_driver_resolves:
  "click_resolves (page_driver page) (\<lambda>l w. matching page l) (\<lambda>x w. (None, w @ [x]))
     (\<lambda>l. ''no such element'') (\<lambda>l. ''strict mode violation'')"
  by (simp add: click_resolves_def page_driver_def split: list.splits)

lemma page_driver_reaches:
  "first_failure (page_driver page) dashboard_steps w = None"
  "replay (page_driver page) dashboard_steps w = w"
  by (simp_all add: dashboard_steps_def page_driver_def)

subsection \<open>The polling loop\<close>

lemma to_be_visible_outcome:
  assumes "0 < interval"
  shows "(\<exists>k\<le>(timeout - elapsed) div interval.
            visible l ((wait interval ^^ k) w)
            \<and> (\<forall>j<k. \<not> visible l ((wait interval ^^ j) w))
            \<and> to_be_visible visible wait timeout_error timeout interval elapsed l w =
                (None, (wait interval ^^ k) w))
       \<or> ((\<forall>j\<le>(timeout - elapsed) div interval. \<not> visible l ((wait interval ^^ j) w))
           \<and> to_be_visible visible wait timeout_error timeout interval elapsed l w =
                (Some (timeout_error l), (wait interval ^^ ((timeout - elapsed) div interval)) w))"
  using assms
proof (induction visible wait timeout_error timeout interval elapsed l w
       rule: to_be_visible.induct)
  case (1 visible wait timeout_error timeout interval elapsed l w)
  let ?n = "(timeout - elapsed) div interval"
  let ?f = "wait interval"
  show ?case
  proof (cases "visible l w")
    case True
    then have "to_be_visible visible wait timeout_error timeout interval elapsed l w = (None, w)"
      by (simp add: to_be_visible.simps)
    then have "visible l ((?f ^^ 0) w) \<and> (\<forall>j<0. \<not> visible l ((?f ^^ j) w))
        \<and> to_be_visible visible wait timeout_error timeout interval elapsed l w =
            (None, (?f ^^ 0) w)"
      using True by simp
    then show ?thesis by blast
  next
    case False
    show ?thesis
    proof (cases "timeout < elapsed + interval")
      case True
      then have "timeout - elapsed < interval" using "1.prems" by arith
      then have n: "?n = 0" by (rule div_less)
      have "to_be_visible visible wait timeout_error timeout interval elapsed l w =
              (Some (timeout_error l), w)"
        using False True by (simp add: to_be_visible.simps)
      then show ?thesis using False n by simp
    next
      case late: False
      let ?m = "(timeout - (elapsed + interval)) div interval"
      have n: "?n = Suc ?m"
      proof -
        have "timeout - elapsed = (timeout - (elapsed + interval)) + interval"
          using late by simp
        then have "?n = ((timeout - (elapsed + interval)) + interval) div interval" by simp
        also have "\<dots> = Suc ?m" using "1.prems" by (simp add: div_add_self2)
        finally show ?thesis .
      qed
      have step: "to_be_visible visible wait timeout_error timeout interval elapsed l w =
          to_be_visible visible wait timeout_error timeout interval (elapsed + interval) l (?f w)"
        using False late "1.prems"
        by (subst to_be_visible.simps) simp
      have shift: "(?f ^^ k) (?f w) = (?f ^^ Suc k) w" for k
        by (simp add: funpow_swap1)
      have IH: "(\<exists>k\<le>?m. visible l ((?f ^^ k) (?f w))
            \<and> (\<forall>j<k. \<not> visible l ((?f ^^ j) (?f w)))
            \<and> to_be_visible visible wait timeout_error timeout interval (elapsed + interval) l (?f w) =
                (None, (?f ^^ k) (?f w)))
         \<or> ((\<forall>j\<le>?m. \<not> visible l ((?f ^^ j) (?f w)))
           \<and> to_be_visible visible wait timeout_error timeout interval (elapsed + interval) l (?f w) =
                (Some (timeout_error l), (?f ^^ ?m) (?f w)))"
        using "1.IH" False late "1.prems" by simp
      then show ?thesis
      proof
        assume "\<exists>k\<le>?m. visible l ((?f ^^ k) (?f w))
            \<and> (\<forall>j<k. \<not> visible l ((?f ^^ j) (?f w)))
            \<and> to_be_visible visible wait timeout_error timeout interval (elapsed + interval) l (?f w) =
                (None, (?f ^^ k) (?f w))"
        then obtain k where k: "k \<le> ?m" "visible l ((?f ^^ k) (?f w))"
            "\<forall>j<k. \<not> visible l ((?f ^^ j) (?f w))"
            "to_be_visible visible wait timeout_error timeout interval (elapsed + interval) l (?f w) =
                (None, (?f ^^ k) (?f w))"
          by blast
        have before: "\<not> visible l ((?f ^^ j) w)" if "j < Suc k" for j
        proof (cases j)
          case 0
          then show ?thesis using False by simp
        next
          case (Suc i)
          then have "i < k" using that by simp
          then have "\<not> visible l ((?f ^^ i) (?f w))" using k(3) by blast
          then show ?thesis unfolding shift Suc .
        qed
        have "Suc k \<le> ?n" using k(1) n by simp
        moreover have "visible l ((?f ^^ Suc k) w)" using k(2) unfolding shift .
        moreover have "to_be_visible visible wait timeout_error timeout interval elapsed l w =
                (None, (?f ^^ Suc k) w)"
          using k(4) unfolding shift step .
        ultimately show ?thesis using before by blast
      next
        assume a: "(\<forall>j\<le>?m. \<not> visible l ((?f ^^ j) (?f w)))
           \<and> to_be_visible visible wait timeout_error timeout interval (elapsed + interval) l (?f w) =
                (Some (timeout_error l), (?f ^^ ?m) (?f w))"
        have never: "\<not> visible l ((?f ^^ j) w)" if "j \<le> ?n" for j
        proof (cases j)
          case 0
          then show ?thesis using False by simp
        next
          case (Suc i)
          then have "i \<le> ?m" using that n by simp
          then have "\<not> visible l ((?f ^^ i) (?f w))" using a by blast
          then show ?thesis unfolding shift Suc .
        qed
        have "to_be_visible visible wait timeout_error timeout interval elapsed l w =
                (Some (timeout_error l), (?f ^^ ?n) w)"
          using a unfolding step n shift [symmetric] by simp
        then show ?thesis using never by blast
      qed
    qed
  qed
qed

lemma expectations_filter:
  "(\<And>l. P (Expect_to_be_visible l)) \<Longrightarrow> expectations (filter P xs) = expectations xs"
proof (induction xs)
  case Nil
  show ?case by simp
next
  case (Cons c xs)
  then show ?case by (cases c) simp_all
qed

lemma expectations_take: "set (expectations (take k xs)) \<subseteq> set (expectations xs)"
proof (induction xs arbitrary: k)
  case Nil
  show ?case by simp
next
  case (Cons c xs)
  show ?case
  proof (cases k)
    case 0
    then show ?thesis by simp
  next
    case (Suc j)
    then show ?thesis using Cons.IH [of j] by (cases c) auto
  qed
qed

lemma expectations_script:
  "expectations script_calls =
     map Get_by_text [''Edit Expense'', ''No Changes'', ''Discard changes?'']"
  by (simp add: script_calls_list)

lemma expectations_run:
  "set (expectations (calls (snd (run_verification drv (start w fs)))))
     \<subseteq> set (expectations script_calls)"
proof -
  obtain k where "filter (\<lambda>c. c \<noteq> Browser_close \<and> c \<noteq> Sync_playwright_exit)
         (calls (snd (run_verification drv (start w fs)))) = take k script_calls"
    using calls_prefix [of drv w fs] by blast
  then have "expectations (calls (snd (run_verification drv (start w fs)))) =
             expectations (take k script_calls)"
    using expectations_filter [of "\<lambda>c. c \<noteq> Browser_close \<and> c \<noteq> Sync_playwright_exit"
            "calls (snd (run_verification drv (start w fs)))"]
    by simp
  then show ?thesis using expectations_take [of k script_calls] by simp
qed

subsection \<open>The world at the end of a run\<close>

lemma world_replays:
  "world (snd (run_verification drv (start w fs))) =
     replay drv (calls (snd (run_verification drv (start w fs)))) w"
proof (cases "first_failure drv setup_calls w")
  case None
  then have s: "first_failure drv setup_calls (world (start w fs)) = None"
    by (simp add: start_def)
  have "calls (snd (run_verification drv (start w fs))) =
          setup_calls @ take (issued drv body_calls (replay drv setup_calls w)) body_calls
            @ [Browser_close, Sync_playwright_exit]"
    using guarded_calls [OF s] by (simp add: start_def)
  moreover have "world (snd (run_verification drv (start w fs))) =
          replay drv [Browser_close, Sync_playwright_exit] (after_body drv w)"
    using guarded_world [OF s] by (simp add: start_def)
  ultimately show ?thesis
    by (simp only: replay_append after_body_def)
next
  case (Some a)
  obtain k e where a: "a = (k, e)" by (cases a)
  show ?thesis
  proof (cases k)
    case 0
    then have "run_verification drv (start w fs) = perform drv Sync_playwright_enter (start w fs)"
      using enter_raised(1) [of drv "start w fs" e] Some a by (simp add: start_def)
    then show ?thesis by (simp add: world_perform calls_perform start_def)
  next
    case (Suc j)
    then have f: "first_failure drv setup_calls (world (start w fs)) = Some (Suc j, e)"
      using Some a by (simp add: start_def)
    let ?w1 = "snd (respond drv Sync_playwright_enter w)"
    let ?n = "issued drv [Chromium_launch True, New_page] ?w1"
    have c: "calls (snd (run_verification drv (start w fs))) =
            [Sync_playwright_enter] @ take ?n [Chromium_launch True, New_page]
              @ [Sync_playwright_exit]"
      by (simp add: setup_raised(1) [OF f] calls_try_finally calls_run_calls world_perform
            calls_perform del: run_calls.simps) (simp add: start_def)
    have "world (snd (run_verification drv (start w fs))) =
            snd (respond drv Sync_playwright_exit
                   (replay drv (take ?n [Chromium_launch True, New_page]) ?w1))"
      by (simp add: setup_raised(1) [OF f] world_try_finally world_run_calls world_perform
            del: run_calls.simps) (simp add: start_def)
    then show ?thesis
      by (simp only: c replay_append) simp
  qed
qed

lemma drop_3_body:
  "drop 3 body_calls = Expect_to_be_visible (Get_by_text ''Edit Expense'') # drop 4 body_calls"
  by (simp add: body_calls_def)

subsection \<open>The ending of the process\<close>

lemma main_run:
  "main drv class_of argv environ s =
     (interpreter_ending (map_option class_of (fst (run_verification drv s))),
      snd (run_verification drv s))"
  by (simp add: main_def module_body_def split: prod.splits)

lemma ending_nonzero: "k \<noteq> System_exit 0 \<Longrightarrow> interpreter_ending (Some k) \<noteq> Exit 0"
  by (cases k) (simp_all add: interpreter_ending_def)

section \<open>Properties of the run\<close>




text \<open>
  C2. A run in which nothing raises makes exactly these sixteen calls, in this order:
  it enters the Playwright scope, launches the headless browser and opens the page;
  navigates to \<^verbatim>\<open>http://localhost:8081\<close>; screenshot 1; clicks the first Edit button;
  asserts that ``Edit Expense'' is visible; screenshot 2; clicks Update Expense; asserts
  that ``No Changes'' is visible; screenshot 3; goes back in the history; asserts that
  ``Discard changes?'' is visible; screenshot 4; closes the browser; leaves the scope.
  Each call is answered in the world the previous call left. There is no branching: in
  every run, whatever the library answers, the calls other than the two releases are an
  initial segment of this one list.
\<close>

theorem one_fixed_sequence:
  "let script =
     [Sync_playwright_enter, Chromium_launch True, New_page,
      Goto ''http://localhost:8081'',
      Screenshot ''jules-scratch/verification/dashboard-page.png'',
      Click (First (Get_by_role ''button'' ''Edit'')),
      Expect_to_be_visible (Get_by_text ''Edit Expense''),
      Screenshot ''jules-scratch/verification/edit-expense-page.png'',
      Click (Get_by_role ''button'' ''Update Expense''),
      Expect_to_be_visible (Get_by_text ''No Changes''),
      Screenshot ''jules-scratch/verification/no-changes-alert.png'',
      Go_back,
      Expect_to_be_visible (Get_by_text ''Discard changes?''),
      Screenshot ''jules-scratch/verification/discard-changes-alert.png'',
      Browser_close, Sync_playwright_exit]
   in (fst (run_verification drv (start w fs)) = None \<longrightarrow>
         calls (snd (run_verification drv (start w fs))) = script
         \<and> world (snd (run_verification drv (start w fs))) = replay drv script w)
    \<and> (\<exists>k. filter (\<lambda>c. c \<noteq> Browser_close \<and> c \<noteq> Sync_playwright_exit)
              (calls (snd (run_verification drv (start w fs)))) = take k script)"
proof -
  have "calls (snd (run_verification drv (start w fs))) = script_calls
        \<and> world (snd (run_verification drv (start w fs))) = replay drv script_calls w"
    if "fst (run_verification drv (start w fs)) = None"
  proof -
    have "first_failure drv script_calls (world (start w fs)) = None"
      using that by (simp only: returns_iff)
    then show ?thesis
      using returned_run [of drv "start w fs"] by (simp add: start_def)
  qed
  then show ?thesis
    using calls_prefix [of drv w fs]
    unfolding Let_def script_calls_list by blast
qed

text \<open>An example: no call raises.\<close>

theorem one_fixed_sequence_witness:
  "fst (run_verification (scripted []) (start 0 Map.empty)) = None
   \<and> calls (snd (run_verification (scripted []) (start 0 Map.empty))) =
     [Sync_playwright_enter, Chromium_launch True, New_page,
      Goto ''http://localhost:8081'',
      Screenshot ''jules-scratch/verification/dashboard-page.png'',
      Click (First (Get_by_role ''button'' ''Edit'')),
      Expect_to_be_visible (Get_by_text ''Edit Expense''),
      Screenshot ''jules-scratch/verification/edit-expense-page.png'',
      Click (Get_by_role ''button'' ''Update Expense''),
      Expect_to_be_visible (Get_by_text ''No Changes''),
      Screenshot ''jules-scratch/verification/no-changes-alert.png'',
      Go_back,
      Expect_to_be_visible (Get_by_text ''Discard changes?''),
      Screenshot ''jules-scratch/verification/discard-changes-alert.png'',
      Browser_close, Sync_playwright_exit]
   \<and> world (snd (run_verification (scripted []) (start 0 Map.empty))) = 16"
proof -
  have "first_failure (scripted []) script_calls (world (start 0 Map.empty)) = None"
    by (simp add: script_calls_list scripted_def)
  then have h: "fst (run_verification (scripted []) (start 0 Map.empty)) = None"
    by (simp only: returns_iff)
  show ?thesis
    using h one_fixed_sequence [of "scripted []" 0 Map.empty]
    by (simp add: Let_def scripted_def)
qed

text \<open>
  C3. When a call of the \<^verbatim>\<open>try\<close> body raises (a navigation, a click on a control that
  is missing, a visibility assertion that times out, or a screenshot that cannot be
  written), the run raises: it does not return normally. The failing call is made once
  and is not retried; no later call of the body is made; the only calls after it are
  \<^verbatim>\<open>browser.close()\<close> and the exit of the Playwright scope. The exception that leaves
  the run is the one the failing call raised, unless one of these two releases raises
  in its turn.
\<close>

theorem failure_aborts_and_releases:
  assumes "first_failure drv setup_calls w = None"
      and "first_failure drv body_calls (replay drv setup_calls w) = Some (k, e)"
  shows "fst (run_verification drv (start w fs)) \<noteq> None
       \<and> calls (snd (run_verification drv (start w fs))) =
           setup_calls @ take (Suc k) body_calls @ [Browser_close, Sync_playwright_exit]
       \<and> count_list (calls (snd (run_verification drv (start w fs)))) (body_calls ! k) = 1
       \<and> (first_failure drv [Browser_close, Sync_playwright_exit]
             (replay drv (take (Suc k) body_calls) (replay drv setup_calls w)) = None
           \<longrightarrow> fst (run_verification drv (start w fs)) = Some e)"
proof -
  have k: "k < length body_calls" using assms(2) by (rule first_failure_bound)
  have cs: "calls (snd (run_verification drv (start w fs))) =
              setup_calls @ take (Suc k) body_calls @ [Browser_close, Sync_playwright_exit]"
    using assms by (rule abort_calls)
  have mem: "body_calls ! k \<in> set body_calls" using k by simp
  have "count_list setup_calls (body_calls ! k) = 0"
    using body_not_setup [OF mem] by simp
  moreover have "count_list [Browser_close, Sync_playwright_exit] (body_calls ! k) = 0"
    using body_no_release [OF mem] by auto
  ultimately have once:
    "count_list (calls (snd (run_verification drv (start w fs)))) (body_calls ! k) = 1"
    by (simp only: cs count_list_append count_take_nth [OF distinct_body k])
  show ?thesis
    using abort_outcome [OF assms, of fs] cs once abort_propagates [OF assms, of fs] by blast
qed

text \<open>An example: the first visibility assertion (the call numbered 6) times out.\<close>

theorem failure_aborts_and_releases_witness:
  "first_failure (scripted [6]) setup_calls 0 = None
   \<and> first_failure (scripted [6]) body_calls (replay (scripted [6]) setup_calls 0) = Some (3, 6)
   \<and> fst (run_verification (scripted [6]) (start 0 Map.empty)) = Some 6
   \<and> calls (snd (run_verification (scripted [6]) (start 0 Map.empty))) =
       [Sync_playwright_enter, Chromium_launch True, New_page,
        Goto ''http://localhost:8081'',
        Screenshot ''jules-scratch/verification/dashboard-page.png'',
        Click (First (Get_by_role ''button'' ''Edit'')),
        Expect_to_be_visible (Get_by_text ''Edit Expense''),
        Browser_close, Sync_playwright_exit]"
proof -
  have h1: "first_failure (scripted [6]) setup_calls 0 = None"
    by (simp add: setup_calls_def scripted_def)
  have h2: "first_failure (scripted [6]) body_calls (replay (scripted [6]) setup_calls 0) = Some (3, 6)"
    by (simp add: setup_calls_def body_calls_def scripted_def)
  have h3: "first_failure (scripted [6]) [Browser_close, Sync_playwright_exit]
             (replay (scripted [6]) (take (Suc 3) body_calls) (replay (scripted [6]) setup_calls 0)) = None"
    by (simp add: setup_calls_def body_calls_def scripted_def)
  show ?thesis
    using h1 h2 h3 failure_aborts_and_releases [OF h1 h2, of Map.empty]
    by (simp add: setup_calls_def body_calls_def)
qed

text \<open>
  C4. The script makes three visibility assertions, for the texts ``Edit Expense'',
  ``No Changes'' and ``Discard changes?'', and no other. When the library's assertion is
  the bounded polling loop \<open>to_be_visible\<close> with a positive interval, each of them
  terminates after at most \<open>timeout div interval\<close> waits, in one of two ways: it returns
  at the first check that finds the text visible, or no check within the timeout found
  it visible and it raises the timeout error, which names the locator.
\<close>

theorem visibility_assertions_poll:
  assumes "expect_polls drv visible wait timeout_error timeout interval"
      and "0 < interval"
  shows "set (expectations (calls (snd (run_verification drv (start w0 fs)))))
           \<subseteq> set (map Get_by_text [''Edit Expense'', ''No Changes'', ''Discard changes?''])
       \<and> (fst (run_verification drv (start w0 fs)) = None \<longrightarrow>
            expectations (calls (snd (run_verification drv (start w0 fs)))) =
              map Get_by_text [''Edit Expense'', ''No Changes'', ''Discard changes?''])
       \<and> (\<forall>t\<in>set [''Edit Expense'', ''No Changes'', ''Discard changes?'']. \<forall>w.
            (\<exists>k\<le>timeout div interval.
                visible (Get_by_text t) ((wait interval ^^ k) w)
                \<and> (\<forall>j<k. \<not> visible (Get_by_text t) ((wait interval ^^ j) w))
                \<and> respond drv (Expect_to_be_visible (Get_by_text t)) w =
                    (None, (wait interval ^^ k) w))
          \<or> ((\<forall>j\<le>timeout div interval. \<not> visible (Get_by_text t) ((wait interval ^^ j) w))
              \<and> respond drv (Expect_to_be_visible (Get_by_text t)) w =
                  (Some (timeout_error (Get_by_text t)),
                   (wait interval ^^ (timeout div interval)) w)))"
proof -
  have a: "set (expectations (calls (snd (run_verification drv (start w0 fs)))))
           \<subseteq> set (map Get_by_text [''Edit Expense'', ''No Changes'', ''Discard changes?''])"
    using expectations_run [of drv w0 fs] by (simp only: expectations_script)
  have b: "expectations (calls (snd (run_verification drv (start w0 fs)))) =
              map Get_by_text [''Edit Expense'', ''No Changes'', ''Discard changes?'']"
    if "fst (run_verification drv (start w0 fs)) = None"
  proof -
    have "first_failure drv script_calls (world (start w0 fs)) = None"
      using that by (simp only: returns_iff)
    then have "calls (snd (run_verification drv (start w0 fs))) = script_calls"
      using returned_run(1) [of drv "start w0 fs"] by (simp add: start_def)
    then show ?thesis by (simp only: expectations_script)
  qed
  have c: "(\<exists>k\<le>timeout div interval.
                visible l ((wait interval ^^ k) w)
                \<and> (\<forall>j<k. \<not> visible l ((wait interval ^^ j) w))
                \<and> respond drv (Expect_to_be_visible l) w = (None, (wait interval ^^ k) w))
          \<or> ((\<forall>j\<le>timeout div interval. \<not> visible l ((wait interval ^^ j) w))
              \<and> respond drv (Expect_to_be_visible l) w =
                  (Some (timeout_error l), (wait interval ^^ (timeout div interval)) w))"
    for l w
  proof -
    have "respond drv (Expect_to_be_visible l) w =
            to_be_visible visible wait timeout_error timeout interval 0 l w"
      using assms(1) unfolding expect_polls_def by blast
    then show ?thesis
      using to_be_visible_outcome [OF assms(2), of timeout 0 visible l wait w timeout_error]
      by simp
  qed
  show ?thesis using a b c by blast
qed

text \<open>An example: the first text appears after two waits, the second never does.\<close>

theorem visibility_assertions_poll_witness:
  "expect_polls polling_driver (\<lambda>l w. l = Get_by_text ''Edit Expense'' \<and> 200 \<le> w)
      (\<lambda>i w. w + i) (\<lambda>l. ''timed out waiting for the locator to be visible'') 300 100
   \<and> set (expectations (calls (snd (run_verification polling_driver (start 0 Map.empty)))))
        \<subseteq> set (map Get_by_text [''Edit Expense'', ''No Changes'', ''Discard changes?''])
   \<and> respond polling_driver (Expect_to_be_visible (Get_by_text ''Edit Expense'')) 0 = (None, 200)
   \<and> respond polling_driver (Expect_to_be_visible (Get_by_text ''No Changes'')) 0 =
        (Some ''timed out waiting for the locator to be visible'', 300)"
proof -
  have h1: "expect_polls polling_driver (\<lambda>l w. l = Get_by_text ''Edit Expense'' \<and> 200 \<le> w)
      (\<lambda>i w. w + i) (\<lambda>l. ''timed out waiting for the locator to be visible'') 300 100"
    by (simp add: expect_polls_def polling_driver_def)
  have h2: "(0::nat) < 100" by simp
  have e: "respond polling_driver (Expect_to_be_visible (Get_by_text ''Edit Expense'')) 0 = (None, 200)"
    by (simp add: polling_driver_def to_be_visible.simps)
  have n: "respond polling_driver (Expect_to_be_visible (Get_by_text ''No Changes'')) 0 =
        (Some ''timed out waiting for the locator to be visible'', 300)"
    by (simp add: polling_driver_def to_be_visible.simps)
  show ?thesis
    using h1 e n visibility_assertions_poll [OF h1 h2, where ?w0.0 = 0 and fs = Map.empty]
    by blast
qed

text \<open>
  C5. A run in which nothing raises takes exactly four screenshots, in this order, at
  \<^verbatim>\<open>dashboard-page.png\<close>, \<^verbatim>\<open>edit-expense-page.png\<close>, \<^verbatim>\<open>no-changes-alert.png\<close> and
  \<^verbatim>\<open>discard-changes-alert.png\<close> in the relative directory
  \<^verbatim>\<open>jules-scratch/verification/\<close>. Afterwards each of the four paths holds the image
  taken at its checkpoint, whatever it held before, and every other path holds what it
  held before the run. In every run, complete or not, no path other than these four
  changes.
\<close>

theorem four_screenshots_only:
  "let paths = map (\<lambda>name. ''jules-scratch/verification/'' @ name)
         [''dashboard-page.png'', ''edit-expense-page.png'',
          ''no-changes-alert.png'', ''discard-changes-alert.png'']
   in (fst (run_verification drv (start w fs)) = None \<longrightarrow>
         shots (calls (snd (run_verification drv (start w fs)))) = paths
         \<and> files (snd (run_verification drv (start w fs))) =
             fs(paths ! 0 \<mapsto> render drv (replay drv (take 5 script_calls) w),
                paths ! 1 \<mapsto> render drv (replay drv (take 8 script_calls) w),
                paths ! 2 \<mapsto> render drv (replay drv (take 11 script_calls) w),
                paths ! 3 \<mapsto> render drv (replay drv (take 14 script_calls) w)))
    \<and> (\<forall>p. p \<notin> set paths \<longrightarrow> files (snd (run_verification drv (start w fs))) p = fs p)"
proof -
  have a: "shots (calls (snd (run_verification drv (start w fs)))) = shots script_calls
         \<and> files (snd (run_verification drv (start w fs))) =
             written drv body_calls (replay drv setup_calls w) fs"
    if "fst (run_verification drv (start w fs)) = None"
  proof -
    have r: "first_failure drv script_calls (world (start w fs)) = None"
      using that by (simp only: returns_iff)
    show ?thesis
      using returned_run(1) [OF r] files_returned [OF r] by (simp add: start_def)
  qed
  have b: "files (snd (run_verification drv (start w fs))) p = fs p"
    if "p \<notin> set (shots script_calls)" for p
    using files_frame [of p drv "start w fs"] that by (simp add: shots_body start_def)
  show ?thesis
    unfolding Let_def
    using a b by (simp add: shots_script written_body)
qed

text \<open>An example: a file that is not a screenshot survives a complete run.\<close>

theorem four_screenshots_only_witness:
  "fst (run_verification (scripted []) (start 0 [''notes.txt'' \<mapsto> 99])) = None
   \<and> shots (calls (snd (run_verification (scripted []) (start 0 [''notes.txt'' \<mapsto> 99])))) =
       [''jules-scratch/verification/dashboard-page.png'',
        ''jules-scratch/verification/edit-expense-page.png'',
        ''jules-scratch/verification/no-changes-alert.png'',
        ''jules-scratch/verification/discard-changes-alert.png'']
   \<and> files (snd (run_verification (scripted []) (start 0 [''notes.txt'' \<mapsto> 99]))) ''notes.txt''
       = Some 99
   \<and> files (snd (run_verification (scripted []) (start 0 [''notes.txt'' \<mapsto> 99])))
        ''jules-scratch/verification/no-changes-alert.png'' = Some 11"
proof -
  have "first_failure (scripted []) script_calls (world (start 0 [''notes.txt'' \<mapsto> 99])) = None"
    by (simp add: script_calls_list scripted_def)
  then have h: "fst (run_verification (scripted []) (start 0 [''notes.txt'' \<mapsto> 99])) = None"
    by (simp only: returns_iff)
  show ?thesis
    using h four_screenshots_only [of "scripted []" 0 "[''notes.txt'' \<mapsto> 99]"]
    by (simp add: Let_def scripted_def script_calls_list)
qed

text \<open>
  C6. The process takes no argument, flag or environment variable: whatever argument
  vector and environment it is given, it does the same. It ends with status 0 when each
  of the sixteen calls returns. Otherwise an exception leaves \<^verbatim>\<open>run_verification\<close>
  unhandled and the interpreter ends the process as it does for that exception: not with
  status 0, unless the exception is a \<^verbatim>\<open>SystemExit\<close> whose status is 0, which none of
  the failures of the library is.
\<close>

theorem exit_status:
  "let script =
        [Sync_playwright_enter, Chromium_launch True, New_page,
         Goto ''http://localhost:8081'',
         Screenshot ''jules-scratch/verification/dashboard-page.png'',
         Click (First (Get_by_role ''button'' ''Edit'')),
         Expect_to_be_visible (Get_by_text ''Edit Expense''),
         Screenshot ''jules-scratch/verification/edit-expense-page.png'',
         Click (Get_by_role ''button'' ''Update Expense''),
         Expect_to_be_visible (Get_by_text ''No Changes''),
         Screenshot ''jules-scratch/verification/no-changes-alert.png'',
         Go_back,
         Expect_to_be_visible (Get_by_text ''Discard changes?''),
         Screenshot ''jules-scratch/verification/discard-changes-alert.png'',
         Browser_close, Sync_playwright_exit]
   in main drv class_of argv environ (start w fs) = main drv class_of argv' environ' (start w fs)
    \<and> snd (main drv class_of argv environ (start w fs)) = snd (run_verification drv (start w fs))
    \<and> (first_failure drv script w = None \<longrightarrow>
          fst (main drv class_of argv environ (start w fs)) = Exit 0)
    \<and> (first_failure drv script w \<noteq> None \<longrightarrow>
          (\<exists>e. fst (run_verification drv (start w fs)) = Some e
             \<and> fst (main drv class_of argv environ (start w fs)) =
                 interpreter_ending (Some (class_of e))
             \<and> (class_of e \<noteq> System_exit 0 \<longrightarrow>
                  fst (main drv class_of argv environ (start w fs)) \<noteq> Exit 0)))"
proof -
  have r: "fst (run_verification drv (start w fs)) = None \<longleftrightarrow>
           first_failure drv script_calls w = None"
    using returns_iff [of drv "start w fs"] by (simp add: start_def)
  have a: "main drv class_of argv environ (start w fs) =
           main drv class_of argv' environ' (start w fs)"
    by (simp only: main_run)
  have b: "fst (main drv class_of argv environ (start w fs)) = Exit 0"
    if "first_failure drv script_calls w = None"
    using that r by (simp add: main_run interpreter_ending_def)
  have c: "\<exists>e. fst (run_verification drv (start w fs)) = Some e
             \<and> fst (main drv class_of argv environ (start w fs)) =
                 interpreter_ending (Some (class_of e))
             \<and> (class_of e \<noteq> System_exit 0 \<longrightarrow>
                  fst (main drv class_of argv environ (start w fs)) \<noteq> Exit 0)"
    if ne: "first_failure drv script_calls w \<noteq> None"
  proof -
    obtain e where e: "fst (run_verification drv (start w fs)) = Some e"
      using ne r by (cases "fst (run_verification drv (start w fs))") auto
    then have "fst (main drv class_of argv environ (start w fs)) =
                 interpreter_ending (Some (class_of e))"
      by (simp add: main_run)
    then show ?thesis using e ending_nonzero [of "class_of e"] by auto
  qed
  show ?thesis
    unfolding Let_def script_calls_list [symmetric]
    using a b c by (simp add: main_run)
qed

text \<open>
  An example: a complete run; a run whose second click raises an ordinary exception; the
  same run interrupted from the keyboard; and the same run with another argument vector
  and environment.
\<close>

theorem exit_status_witness:
  "fst (main (scripted []) (\<lambda>e. Other_exception) [''verify_edit_expense.py''] Map.empty
          (start 0 Map.empty)) = Exit 0
   \<and> fst (main (scripted [9]) (\<lambda>e. Other_exception) [''verify_edit_expense.py''] Map.empty
          (start 0 Map.empty)) = Exit 1
   \<and> fst (main (scripted [9]) (\<lambda>e. Keyboard_interrupt) [''verify_edit_expense.py''] Map.empty
          (start 0 Map.empty)) = Killed_by_signal 2
   \<and> main (scripted [9]) (\<lambda>e. Other_exception) [''verify_edit_expense.py''] Map.empty
          (start 0 Map.empty) =
       main (scripted [9]) (\<lambda>e. Other_exception) [''verify_edit_expense.py'', ''--headed'']
          [''HEADLESS'' \<mapsto> ''0''] (start 0 Map.empty)"
proof -
  have a: "first_failure (scripted []) script_calls 0 = None"
    by (simp add: script_calls_list scripted_def)
  have b: "first_failure (scripted [9]) script_calls 0 \<noteq> None"
    by (simp add: script_calls_list scripted_def)
  show ?thesis
    using a b
      exit_status [of "scripted []" "\<lambda>e. Other_exception" "[''verify_edit_expense.py'']"
        Map.empty 0 Map.empty]
      exit_status [of "scripted [9]" "\<lambda>e. Other_exception" "[''verify_edit_expense.py'']"
        Map.empty 0 Map.empty "[''verify_edit_expense.py'', ''--headed'']"
        "[''HEADLESS'' \<mapsto> ''0'']"]
      exit_status [of "scripted [9]" "\<lambda>e. Keyboard_interrupt" "[''verify_edit_expense.py'']"
        Map.empty 0 Map.empty]
    unfolding Let_def script_calls_list [symmetric]
    by (auto simp: interpreter_ending_def)
qed

text \<open>
  C7. Under the library's rules for locators, the click of step 4 is on the locator
  \<^verbatim>\<open>page.get_by_role("button", name="Edit").first\<close> and it activates the first control
  with role button and name Edit. When at least one such control is on the page the
  dashboard shows, whatever their number, the sixth call of the run is this click and
  the library answers it by activating the first of these controls. The run goes on
  from there: the world at its end is what the later calls make of the world this
  activation left; when the activation raises, the run aborts with its exception after
  releasing the browser and the scope; when it returns, the next call is the assertion
  that ``Edit Expense'' is visible. When there is no such control, the precondition
  fails: that is C8.
\<close>

theorem first_edit_button_clicked:
  assumes "first_narrows found"
      and "click_resolves drv found invoke not_found ambiguous"
      and "first_failure drv dashboard_steps w = None"
      and "found (Get_by_role ''button'' ''Edit'') (replay drv dashboard_steps w) = c # cs"
  shows "take 6 (calls (snd (run_verification drv (start w fs)))) =
           dashboard_steps @ [Click (First (Get_by_role ''button'' ''Edit''))]
       \<and> respond drv (Click (First (Get_by_role ''button'' ''Edit'')))
           (replay drv dashboard_steps w) = invoke c (replay drv dashboard_steps w)
       \<and> world (snd (run_verification drv (start w fs))) =
           replay drv (drop 6 (calls (snd (run_verification drv (start w fs)))))
             (snd (invoke c (replay drv dashboard_steps w)))
       \<and> (fst (invoke c (replay drv dashboard_steps w)) = Some e \<longrightarrow>
            calls (snd (run_verification drv (start w fs))) =
              dashboard_steps @
              [Click (First (Get_by_role ''button'' ''Edit'')), Browser_close, Sync_playwright_exit]
            \<and> fst (run_verification drv (start w fs)) \<noteq> None
            \<and> (first_failure drv [Browser_close, Sync_playwright_exit]
                  (snd (invoke c (replay drv dashboard_steps w))) = None
                \<longrightarrow> fst (run_verification drv (start w fs)) = Some e))
       \<and> (fst (invoke c (replay drv dashboard_steps w)) = None \<longrightarrow>
            take 7 (calls (snd (run_verification drv (start w fs)))) =
              dashboard_steps @
              [Click (First (Get_by_role ''button'' ''Edit'')),
               Expect_to_be_visible (Get_by_text ''Edit Expense'')])"
proof -
  let ?click = "Click (First (Get_by_role ''button'' ''Edit''))"
  let ?w5 = "replay drv dashboard_steps w"
  let ?run = "run_verification drv (start w fs)"
  have "found (First (Get_by_role ''button'' ''Edit'')) ?w5 = [c]"
    using assms(1,4) by (simp add: first_narrows_def)
  then have inv: "respond drv ?click ?w5 = invoke c ?w5"
    using assms(2) by (rule click_one [rotated])
  have r: "first_failure drv (setup_calls @ take 2 body_calls) w = None"
    using assms(3) by (simp only: dashboard_steps_split)
  have s: "first_failure drv setup_calls w = None" by (rule reached(1) [OF r])
  have w5: "replay drv (setup_calls @ take 2 body_calls) w = ?w5"
    by (simp only: dashboard_steps_split)
  have ff: "first_failure drv body_calls (replay drv setup_calls w) =
          map_option (\<lambda>(k, e). (2 + k, e)) (first_failure drv (drop 2 body_calls) ?w5)"
    using reached(3) [OF r] by (simp add: length_body w5)
  let ?n = "issued drv body_calls (replay drv setup_calls w)"
  have cs: "calls (snd ?run) =
              setup_calls @ take ?n body_calls @ [Browser_close, Sync_playwright_exit]"
    using guarded_calls [of drv "start w fs"] s by (simp add: start_def)
  have n: "3 \<le> ?n"
  proof (cases "first_failure drv (drop 2 body_calls) ?w5")
    case None
    then show ?thesis using ff by (simp add: issued_def length_body)
  next
    case (Some a)
    obtain j x where "a = (j, x)" by (cases a)
    then show ?thesis using ff Some by (simp add: issued_def)
  qed
  have six: "take 6 (calls (snd ?run)) = dashboard_steps @ [?click]"
  proof -
    have "take 6 (setup_calls @ take ?n body_calls @ [Browser_close, Sync_playwright_exit]) =
          setup_calls @ take 3 body_calls"
      using n by (simp add: setup_calls_def min_def length_body)
    also have "\<dots> = dashboard_steps @ [?click]"
      by (simp add: dashboard_steps_def setup_calls_def body_calls_def)
    finally show ?thesis using cs by simp
  qed
  have wd: "world (snd ?run) = replay drv (drop 6 (calls (snd ?run))) (snd (invoke c ?w5))"
  proof -
    have "calls (snd ?run) = (dashboard_steps @ [?click]) @ drop 6 (calls (snd ?run))"
      using append_take_drop_id [of 6 "calls (snd ?run)"] six by simp
    then have "replay drv (calls (snd ?run)) w =
        replay drv (drop 6 (calls (snd ?run))) (replay drv (dashboard_steps @ [?click]) w)"
      using replay_append [of drv "dashboard_steps @ [?click]" "drop 6 (calls (snd ?run))" w]
      by simp
    also have "replay drv (dashboard_steps @ [?click]) w = snd (invoke c ?w5)"
      by (simp add: replay_append inv)
    finally show ?thesis by (simp only: world_replays)
  qed
  have raised: "calls (snd ?run) = dashboard_steps @ [?click, Browser_close, Sync_playwright_exit]
      \<and> fst ?run \<noteq> None
      \<and> (first_failure drv [Browser_close, Sync_playwright_exit] (snd (invoke c ?w5)) = None
          \<longrightarrow> fst ?run = Some e)"
    if e: "fst (invoke c ?w5) = Some e"
  proof -
    have "first_failure drv (drop 2 body_calls) ?w5 = Some (0, e)"
      using e inv unfolding drop_2_body by (cases "invoke c ?w5") simp
    then have b: "first_failure drv body_calls (replay drv setup_calls w) = Some (2, e)"
      using ff by simp
    have t: "take (Suc 2) body_calls = take 2 body_calls @ [?click]"
      by (simp add: body_calls_def)
    have "calls (snd ?run) =
           setup_calls @ take (Suc 2) body_calls @ [Browser_close, Sync_playwright_exit]"
      using s b by (rule abort_calls)
    then have c1: "calls (snd ?run) =
           dashboard_steps @ [?click, Browser_close, Sync_playwright_exit]"
      unfolding t dashboard_steps_split by simp
    have w6: "replay drv (take (Suc 2) body_calls) (replay drv setup_calls w) =
           snd (invoke c ?w5)"
      by (simp only: t dashboard_steps_split replay_append) (simp add: inv [unfolded dashboard_steps_split replay_append])
    have out: "fst ?run \<noteq> None" using s b by (rule abort_outcome)
    have "fst ?run = Some e"
      if "first_failure drv [Browser_close, Sync_playwright_exit] (snd (invoke c ?w5)) = None"
      using s b that [folded w6] by (rule abort_propagates)
    then show ?thesis using c1 out by blast
  qed
  have returned: "take 7 (calls (snd ?run)) =
        dashboard_steps @ [?click, Expect_to_be_visible (Get_by_text ''Edit Expense'')]"
    if e: "fst (invoke c ?w5) = None"
  proof -
    have d2: "first_failure drv (drop 2 body_calls) ?w5 =
        map_option (\<lambda>(k, e). (Suc k, e))
          (first_failure drv (drop 3 body_calls) (snd (invoke c ?w5)))"
      using e inv unfolding drop_2_body by (cases "invoke c ?w5") simp
    have n4: "4 \<le> ?n"
    proof (cases "first_failure drv (drop 3 body_calls) (snd (invoke c ?w5))")
      case None
      then show ?thesis using ff d2 by (simp add: issued_def length_body)
    next
      case (Some a)
      obtain j x where "a = (j, x)" by (cases a)
      then show ?thesis using ff d2 Some by (simp add: issued_def)
    qed
    have "take 7 (setup_calls @ take ?n body_calls @ [Browser_close, Sync_playwright_exit]) =
          setup_calls @ take 4 body_calls"
      using n4 by (simp add: setup_calls_def min_def length_body)
    also have "\<dots> = dashboard_steps @ [?click, Expect_to_be_visible (Get_by_text ''Edit Expense'')]"
      by (simp add: dashboard_steps_def setup_calls_def body_calls_def)
    finally show ?thesis using cs by simp
  qed
  show ?thesis using six inv wd raised returned by blast
qed

text \<open>An example: a page with two Edit buttons; the one numbered 0 is clicked.\<close>

theorem first_edit_button_clicked_witness:
  "matching [(0, ''button'', ''Edit''), (1, ''button'', ''Edit'')]
       (Get_by_role ''button'' ''Edit'') = [(0, ''button'', ''Edit''), (1, ''button'', ''Edit'')]
   \<and> respond (page_driver [(0, ''button'', ''Edit''), (1, ''button'', ''Edit'')])
        (Click (First (Get_by_role ''button'' ''Edit''))) [] = (None, [(0, ''button'', ''Edit'')])
   \<and> take 7 (calls (snd (run_verification
          (page_driver [(0, ''button'', ''Edit''), (1, ''button'', ''Edit'')])
          (start [] Map.empty)))) =
        dashboard_steps @ [Click (First (Get_by_role ''button'' ''Edit'')),
                           Expect_to_be_visible (Get_by_text ''Edit Expense'')]
   \<and> world (snd (run_verification
          (page_driver [(0, ''button'', ''Edit''), (1, ''button'', ''Edit'')])
          (start [] Map.empty))) =
        replay (page_driver [(0, ''button'', ''Edit''), (1, ''button'', ''Edit'')])
          (drop 6 (calls (snd (run_verification
            (page_driver [(0, ''button'', ''Edit''), (1, ''button'', ''Edit'')])
            (start [] Map.empty)))))
          [(0, ''button'', ''Edit'')]"
proof -
  let ?page = "[(0::nat, ''button'', ''Edit''), (1, ''button'', ''Edit'')]"
  have h4: "(\<lambda>l w. matching ?page l) (Get_by_role ''button'' ''Edit'')
              (replay (page_driver ?page) dashboard_steps ([]::control list)) =
            (0, ''button'', ''Edit'') # [(1, ''button'', ''Edit'')]"
    by simp
  show ?thesis
    using first_edit_button_clicked [OF page_driver_narrows page_driver_resolves
        page_driver_reaches(1) h4, where fs = Map.empty]
    by (simp add: page_driver_reaches)
qed

text \<open>
  C8. Under the library's rules for locators, when the page the dashboard shows has no
  control with role button and name Edit, the click of step 4 raises the library's
  error for a missing element. The run raises; none of the later steps is made; the
  calls after the click are \<^verbatim>\<open>browser.close()\<close> and the exit of the scope. The error that
  leaves the run is the missing-element error, unless a release raises in its turn.
\<close>

theorem missing_edit_button_aborts:
  assumes "first_narrows found"
      and "click_resolves drv found invoke not_found ambiguous"
      and "first_failure drv dashboard_steps w = None"
      and "found (Get_by_role ''button'' ''Edit'') (replay drv dashboard_steps w) = []"
  shows "calls (snd (run_verification drv (start w fs))) =
           dashboard_steps @
           [Click (First (Get_by_role ''button'' ''Edit'')), Browser_close, Sync_playwright_exit]
       \<and> fst (run_verification drv (start w fs)) \<noteq> None
       \<and> (first_failure drv [Browser_close, Sync_playwright_exit]
             (snd (respond drv (Click (First (Get_by_role ''button'' ''Edit'')))
                     (replay drv dashboard_steps w))) = None
           \<longrightarrow> fst (run_verification drv (start w fs)) =
                 Some (not_found (First (Get_by_role ''button'' ''Edit''))))"
proof -
  let ?click = "Click (First (Get_by_role ''button'' ''Edit''))"
  let ?w5 = "replay drv dashboard_steps w"
  have "found (First (Get_by_role ''button'' ''Edit'')) ?w5 = []"
    using assms(1,4) by (simp add: first_narrows_def)
  then have raised: "fst (respond drv ?click ?w5) = Some (not_found (First (Get_by_role ''button'' ''Edit'')))"
    using assms(2) by (rule click_none [rotated])
  have r: "first_failure drv (setup_calls @ take 2 body_calls) w = None"
    using assms(3) by (simp only: dashboard_steps_split)
  have "first_failure drv (drop 2 body_calls) ?w5 =
          Some (0, not_found (First (Get_by_role ''button'' ''Edit'')))"
    using raised unfolding drop_2_body
    by (cases "respond drv ?click ?w5") simp
  then have b: "first_failure drv body_calls (replay drv setup_calls w) =
          Some (2, not_found (First (Get_by_role ''button'' ''Edit'')))"
    using reached(3) [OF r] by (simp add: dashboard_steps_split length_body)
  have t: "take (Suc 2) body_calls = take 2 body_calls @ [?click]"
    by (simp add: body_calls_def)
  have "calls (snd (run_verification drv (start w fs))) =
           setup_calls @ take (Suc 2) body_calls @ [Browser_close, Sync_playwright_exit]"
    using reached(1) [OF r] b by (rule abort_calls)
  then have cs: "calls (snd (run_verification drv (start w fs))) =
           dashboard_steps @ [?click, Browser_close, Sync_playwright_exit]"
    unfolding t dashboard_steps_split by simp
  have wd: "replay drv (take (Suc 2) body_calls) (replay drv setup_calls w) =
           snd (respond drv ?click ?w5)"
    by (simp only: t dashboard_steps_split replay_append) simp
  have out: "fst (run_verification drv (start w fs)) \<noteq> None"
    using reached(1) [OF r] b by (rule abort_outcome)
  have "fst (run_verification drv (start w fs)) =
          Some (not_found (First (Get_by_role ''button'' ''Edit'')))"
    if "first_failure drv [Browser_close, Sync_playwright_exit]
          (snd (respond drv ?click ?w5)) = None"
    using reached(1) [OF r] b that [folded wd] by (rule abort_propagates)
  then show ?thesis using cs out by blast
qed

text \<open>An example: the only control named Edit is a link.\<close>

theorem missing_edit_button_aborts_witness:
  "first_narrows (\<lambda>l w. matching [(0, ''link'', ''Edit'')] l)
   \<and> first_failure (page_driver [(0, ''link'', ''Edit'')]) dashboard_steps [] = None
   \<and> matching [(0, ''link'', ''Edit'')] (Get_by_role ''button'' ''Edit'') = []
   \<and> calls (snd (run_verification (page_driver [(0, ''link'', ''Edit'')]) (start [] Map.empty))) =
        dashboard_steps @
        [Click (First (Get_by_role ''button'' ''Edit'')), Browser_close, Sync_playwright_exit]
   \<and> fst (run_verification (page_driver [(0, ''link'', ''Edit'')]) (start [] Map.empty)) =
        Some ''no such element''"
proof -
  let ?page = "[(0::nat, ''link'', ''Edit'')]"
  have h4: "(\<lambda>l w. matching ?page l) (Get_by_role ''button'' ''Edit'')
              (replay (page_driver ?page) dashboard_steps ([]::control list)) = []"
    by simp
  have h5: "first_failure (page_driver ?page) [Browser_close, Sync_playwright_exit]
             (snd (respond (page_driver ?page) (Click (First (Get_by_role ''button'' ''Edit'')))
                     (replay (page_driver ?page) dashboard_steps []))) = None"
    by (simp add: page_driver_def)
  show ?thesis
    using missing_edit_button_aborts [OF page_driver_narrows page_driver_resolves
        page_driver_reaches(1) h4, where fs = Map.empty] h5 page_driver_narrows [of ?page]
      page_driver_reaches(1) [of ?page "[]"]
    by simp
qed

text \<open>
  C9. The locator of step 7 is \<^verbatim>\<open>page.get_by_role("button", name="Update Expense")\<close>
  with no \<^verbatim>\<open>.first\<close>. Under the library's rule that a click on a locator designating
  several elements raises its strict-mode error, when more than one control with role
  button and name Update Expense is present at step 7 the click raises that error and
  the run aborts: no later step is made, and the browser and the scope are released.
  The rule \<open>first_narrows\<close> is not among the hypotheses: nothing narrows this locator.
\<close>

theorem ambiguous_update_button_aborts:
  assumes "click_resolves drv found invoke not_found ambiguous"
      and "first_failure drv edit_steps w = None"
      and "1 < length (found (Get_by_role ''button'' ''Update Expense'') (replay drv edit_steps w))"
  shows "calls (snd (run_verification drv (start w fs))) =
           edit_steps @
           [Click (Get_by_role ''button'' ''Update Expense''), Browser_close, Sync_playwright_exit]
       \<and> fst (run_verification drv (start w fs)) \<noteq> None
       \<and> (first_failure drv [Browser_close, Sync_playwright_exit]
             (snd (respond drv (Click (Get_by_role ''button'' ''Update Expense''))
                     (replay drv edit_steps w))) = None
           \<longrightarrow> fst (run_verification drv (start w fs)) =
                 Some (ambiguous (Get_by_role ''button'' ''Update Expense'')))"
proof -
  let ?click = "Click (Get_by_role ''button'' ''Update Expense'')"
  let ?w8 = "replay drv edit_steps w"
  have raised: "fst (respond drv ?click ?w8) =
      Some (ambiguous (Get_by_role ''button'' ''Update Expense''))"
    using assms(1,3) by (rule click_many)
  have r: "first_failure drv (setup_calls @ take 5 body_calls) w = None"
    using assms(2) by (simp only: edit_steps_split)
  have "first_failure drv (drop 5 body_calls) ?w8 =
          Some (0, ambiguous (Get_by_role ''button'' ''Update Expense''))"
    using raised unfolding drop_5_body
    by (cases "respond drv ?click ?w8") simp
  then have b: "first_failure drv body_calls (replay drv setup_calls w) =
          Some (5, ambiguous (Get_by_role ''button'' ''Update Expense''))"
    using reached(3) [OF r] by (simp add: edit_steps_split length_body)
  have t: "take (Suc 5) body_calls = take 5 body_calls @ [?click]"
    by (simp add: body_calls_def)
  have "calls (snd (run_verification drv (start w fs))) =
           setup_calls @ take (Suc 5) body_calls @ [Browser_close, Sync_playwright_exit]"
    using reached(1) [OF r] b by (rule abort_calls)
  then have cs: "calls (snd (run_verification drv (start w fs))) =
           edit_steps @ [?click, Browser_close, Sync_playwright_exit]"
    unfolding t edit_steps_split by simp
  have wd: "replay drv (take (Suc 5) body_calls) (replay drv setup_calls w) =
           snd (respond drv ?click ?w8)"
    by (simp only: t edit_steps_split replay_append) simp
  have out: "fst (run_verification drv (start w fs)) \<noteq> None"
    using reached(1) [OF r] b by (rule abort_outcome)
  have "fst (run_verification drv (start w fs)) =
          Some (ambiguous (Get_by_role ''button'' ''Update Expense''))"
    if "first_failure drv [Browser_close, Sync_playwright_exit]
          (snd (respond drv ?click ?w8)) = None"
    using reached(1) [OF r] b that [folded wd] by (rule abort_propagates)
  then show ?thesis using cs out by blast
qed

text \<open>An example: a page with two Update Expense buttons.\<close>

theorem ambiguous_update_button_aborts_witness:
  "first_failure
      (page_driver [(0, ''button'', ''Edit''), (1, ''button'', ''Update Expense''),
                    (2, ''button'', ''Update Expense'')]) edit_steps [] = None
   \<and> calls (snd (run_verification
        (page_driver [(0, ''button'', ''Edit''), (1, ''button'', ''Update Expense''),
                      (2, ''button'', ''Update Expense'')]) (start [] Map.empty))) =
        edit_steps @
        [Click (Get_by_role ''button'' ''Update Expense''), Browser_close, Sync_playwright_exit]
   \<and> fst (run_verification
        (page_driver [(0, ''button'', ''Edit''), (1, ''button'', ''Update Expense''),
                      (2, ''button'', ''Update Expense'')]) (start [] Map.empty)) =
        Some ''strict mode violation''"
proof -
  let ?page = "[(0::nat, ''button'', ''Edit''), (1, ''button'', ''Update Expense''),
                (2, ''button'', ''Update Expense'')]"
  have h2: "first_failure (page_driver ?page) edit_steps [] = None"
    by (simp add: edit_steps_def dashboard_steps_def page_driver_def)
  have h3: "1 < length ((\<lambda>l w. matching ?page l) (Get_by_role ''button'' ''Update Expense'')
              (replay (page_driver ?page) edit_steps ([]::control list)))"
    by simp
  have h4: "first_failure (page_driver ?page) [Browser_close, Sync_playwright_exit]
             (snd (respond (page_driver ?page) (Click (Get_by_role ''button'' ''Update Expense''))
                     (replay (page_driver ?page) edit_steps []))) = None"
    by (simp add: page_driver_def)
  show ?thesis
    using ambiguous_update_button_aborts [OF page_driver_resolves h2 h3, where fs = Map.empty]
      h2 h4
    by simp
qed

text \<open>
  C10. The browser is launched and the page is opened before the \<^verbatim>\<open>try\<close> statement
  begins. When \<^verbatim>\<open>new_page()\<close> raises after a launch that returned,
  \<^verbatim>\<open>browser.close()\<close> is never called: the only call made after the failure is the
  exit of the \<^verbatim>\<open>sync_playwright()\<close> scope, and the launched browser is left to it.
\<close>

theorem new_page_failure_bypasses_close:
  assumes "respond drv Sync_playwright_enter w = (None, w1)"
      and "respond drv (Chromium_launch True) w1 = (None, w2)"
      and "respond drv New_page w2 = (Some e, w3)"
  shows "calls (snd (run_verification drv (start w fs))) =
           [Sync_playwright_enter, Chromium_launch True, New_page, Sync_playwright_exit]
       \<and> Browser_close \<notin> set (calls (snd (run_verification drv (start w fs))))
       \<and> world (snd (run_verification drv (start w fs))) =
           snd (respond drv Sync_playwright_exit w3)
       \<and> fst (run_verification drv (start w fs)) =
           (case fst (respond drv Sync_playwright_exit w3) of None \<Rightarrow> Some e | Some e' \<Rightarrow> Some e')"
proof -
  let ?s = "start w fs"
  have f: "first_failure drv setup_calls (world ?s) = Some (Suc 1, e)"
    using assms by (simp add: setup_calls_def start_def)
  let ?s1 = "snd (perform drv Sync_playwright_enter ?s)"
  have w1: "world ?s1 = w1" and c1: "calls ?s1 = [Sync_playwright_enter]"
    using assms(1) by (simp_all add: world_perform calls_perform start_def)
  have ff: "first_failure drv [Chromium_launch True, New_page] w1 = Some (1, e)"
    using assms by simp
  have n: "issued drv [Chromium_launch True, New_page] w1 = 2"
    using ff by (simp add: issued_def)
  have r3: "replay drv [Chromium_launch True, New_page] w1 = w3"
    using assms by simp
  have run: "run_verification drv ?s =
          try_finally (run_calls drv [Chromium_launch True, New_page])
            (perform drv Sync_playwright_exit) ?s1"
    by (rule setup_raised(1) [OF f])
  have cs: "calls (snd (run_verification drv ?s)) =
          [Sync_playwright_enter, Chromium_launch True, New_page, Sync_playwright_exit]"
    by (simp add: run calls_try_finally calls_run_calls w1 c1 n del: run_calls.simps)
  have wd: "world (snd (run_verification drv ?s)) = snd (respond drv Sync_playwright_exit w3)"
    by (simp only: run world_try_finally world_run_calls w1 n) (simp add: r3 del: replay.simps)
  have "fst (run_calls drv [Chromium_launch True, New_page] ?s1) = Some e"
    using ff by (simp only: fst_run_calls w1) simp
  moreover have "world (snd (run_calls drv [Chromium_launch True, New_page] ?s1)) = w3"
    by (simp only: world_run_calls w1 n) (simp add: r3 del: replay.simps)
  ultimately have out: "fst (run_verification drv ?s) =
          (case fst (respond drv Sync_playwright_exit w3) of None \<Rightarrow> Some e | Some e' \<Rightarrow> Some e')"
    by (simp add: run fst_try_finally cong: option.case_cong)
  show ?thesis using cs wd out by simp
qed

text \<open>An example: the call numbered 2, \<^verbatim>\<open>new_page()\<close>, raises.\<close>

theorem new_page_failure_bypasses_close_witness:
  "respond (scripted [2]) Sync_playwright_enter 0 = (None, 1)
   \<and> respond (scripted [2]) (Chromium_launch True) 1 = (None, 2)
   \<and> respond (scripted [2]) New_page 2 = (Some 2, 3)
   \<and> calls (snd (run_verification (scripted [2]) (start 0 Map.empty))) =
       [Sync_playwright_enter, Chromium_launch True, New_page, Sync_playwright_exit]
   \<and> fst (run_verification (scripted [2]) (start 0 Map.empty)) = Some 2"
proof -
  have h1: "respond (scripted [2]) Sync_playwright_enter 0 = (None, 1)"
    and h2: "respond (scripted [2]) (Chromium_launch True) 1 = (None, 2)"
    and h3: "respond (scripted [2]) New_page 2 = (Some 2, 3)"
    and h4: "fst (respond (scripted [2]) Sync_playwright_exit 3) = None"
    by (simp_all add: scripted_def)
  show ?thesis
    using h1 h2 h3 h4 new_page_failure_bypasses_close [OF h1 h2 h3, of Map.empty] by simp
qed

end
